theory Spec2Isabelle
  imports Complex_Main "HOL-Library.Log_Nat" "HOL-Library.Multiset"
begin

section \<open>JavaScript values\<close>

text \<open>
  A JavaScript number is an IEEE 754 double: a finite double, one of the two
  infinities, or NaN. \<open>jsnum\<close> holds the numbers that can be compared, in the usual
  order: \<open>Fin x\<close> is the finite double that denotes the real \<open>x\<close>. The two zeros are
  one value here: the program compares, subtracts and multiplies numbers and never
  divides by one or asks for its sign. NaN is the \<open>None\<close> of \<open>jsnum option\<close>.
\<close>

datatype jsnum = NegInf | Fin real | PosInf

instantiation jsnum :: linorder
begin

fun less_eq_jsnum :: "jsnum \<Rightarrow> jsnum \<Rightarrow> bool" where
  "less_eq_jsnum NegInf y = True"
| "less_eq_jsnum (Fin x) NegInf = False"
| "less_eq_jsnum (Fin x) (Fin y) = (x \<le> y)"
| "less_eq_jsnum (Fin x) PosInf = True"
| "less_eq_jsnum PosInf NegInf = False"
| "less_eq_jsnum PosInf (Fin y) = False"
| "less_eq_jsnum PosInf PosInf = True"

definition less_jsnum :: "jsnum \<Rightarrow> jsnum \<Rightarrow> bool" where
  "less_jsnum x y = (x \<le> y \<and> \<not> y \<le> x)"

instance
proof
  fix x y z :: jsnum
  show "(x < y) = (x \<le> y \<and> \<not> y \<le> x)"
    by (simp add: less_jsnum_def)
  show "x \<le> x"
    by (cases x) simp_all
  show "x \<le> y \<Longrightarrow> y \<le> z \<Longrightarrow> x \<le> z"
    by (cases x; cases y; cases z) simp_all
  show "x \<le> y \<Longrightarrow> y \<le> x \<Longrightarrow> x = y"
    by (cases x; cases y) simp_all
  show "x \<le> y \<or> y \<le> x"
    by (cases x; cases y) auto
qed

end

subsection \<open>Rounding to a double\<close>

text \<open>
  \<open>pow2 e\<close> is the power of two with the integer exponent \<open>e\<close>, and \<open>binade x\<close> the
  exponent \<open>e\<close> with \<open>pow2 e \<le> \<bar>x\<bar> < pow2 (e + 1)\<close> of a real \<open>x \<noteq> 0\<close>, counted on the
  integer part of \<open>\<bar>x\<bar>\<close> or, below 1, of its inverse.
\<close>

definition pow2 :: "int \<Rightarrow> real" where
  "pow2 e = (if 0 \<le> e then 2 ^ nat e else 1 / 2 ^ nat (- e))"

definition binade :: "real \<Rightarrow> int" where
  "binade x = (if 1 \<le> \<bar>x\<bar> then bitlen \<lfloor>\<bar>x\<bar>\<rfloor> - 1 else - bitlen (\<lceil>1 / \<bar>x\<bar>\<rceil> - 1))"

text \<open>The nearest integer, a tie going to the even one.\<close>

definition round_even :: "real \<Rightarrow> int" where
  "round_even y =
     (let f = \<lfloor>y\<rfloor>; d = y - of_int f
      in if d < 1 / 2 then f else if 1 / 2 < d then f + 1 else if even f then f else f + 1)"

text \<open>
  \<open>fl x\<close> is the double that an arithmetic operation with the exact result \<open>x\<close>
  returns (round to nearest, ties to even). The doubles around \<open>x\<close> are the multiples
  of \<open>pow2 (binade x - 52)\<close> (53 significant bits), or of \<open>pow2 (- 1074)\<close> in the
  subnormal range; a result that rounds to \<open>2 ^ 1024\<close> or beyond in magnitude
  overflows to the infinity of its sign.
\<close>

definition fl :: "real \<Rightarrow> jsnum" where
  "fl x =
     (if x = 0 then Fin 0
      else let u = pow2 (max (binade x - 52) (- 1074));
               r = of_int (round_even (x / u)) * u
           in if 2 ^ 1024 \<le> \<bar>r\<bar> then (if x < 0 then NegInf else PosInf) else Fin r)"

subsection \<open>Arithmetic\<close>

text \<open>
  Subtraction, multiplication and \<open>Math.round\<close> on numbers, \<open>None\<close> being NaN. On
  finite doubles the exact result is rounded; \<open>Math.round\<close> gives the nearest integer,
  a tie going up, which is a double whenever its argument is one.
\<close>

fun js_neg :: "jsnum \<Rightarrow> jsnum" where
  "js_neg NegInf = PosInf"
| "js_neg (Fin x) = Fin (- x)"
| "js_neg PosInf = NegInf"

fun js_minus :: "jsnum option \<Rightarrow> jsnum option \<Rightarrow> jsnum option" where
  "js_minus (Some (Fin a)) (Some (Fin b)) = Some (fl (a - b))"
| "js_minus (Some (Fin a)) (Some j) = Some (js_neg j)"
| "js_minus (Some i) (Some (Fin b)) = Some i"
| "js_minus (Some i) (Some j) = (if i = j then None else Some i)"
| "js_minus x y = None"

fun js_times :: "jsnum option \<Rightarrow> jsnum option \<Rightarrow> jsnum option" where
  "js_times (Some (Fin a)) (Some (Fin b)) = Some (fl (a * b))"
| "js_times (Some (Fin a)) (Some j) = (if a = 0 then None else Some (if 0 < a then j else js_neg j))"
| "js_times (Some i) (Some (Fin b)) = (if b = 0 then None else Some (if 0 < b then i else js_neg i))"
| "js_times (Some i) (Some j) = Some (if i = j then PosInf else NegInf)"
| "js_times x y = None"

fun js_round :: "jsnum option \<Rightarrow> jsnum option" where
  "js_round (Some (Fin x)) = Some (Fin (of_int \<lfloor>x + 1 / 2\<rfloor>))"
| "js_round x = x"

subsection \<open>Values\<close>

text \<open>
  A field of a node or an edge holds \<open>undefined\<close> (never assigned), \<open>null\<close>, a
  boolean or a number (\<open>JNaN\<close> is the number NaN). The actions of the log write such
  values into fields chosen by name, so every mutable field has this one type.
\<close>

datatype jsval = JUndefined | JNull | JBool bool | JNum jsnum | JNaN

text \<open>A number as a value, and \<open>ToNumber\<close> of a value; \<open>None\<close> is NaN.\<close>

fun of_number :: "jsnum option \<Rightarrow> jsval" where
  "of_number None = JNaN"
| "of_number (Some n) = JNum n"

fun toNumber :: "jsval \<Rightarrow> jsnum option" where
  "toNumber JUndefined = None"
| "toNumber JNull = Some (Fin 0)"
| "toNumber (JBool c) = Some (Fin (if c then 1 else 0))"
| "toNumber (JNum n) = Some n"
| "toNumber JNaN = None"

text \<open>\<open>x !== y\<close>: NaN differs from every value, itself included.\<close>

definition js_strict_ne :: "jsval \<Rightarrow> jsval \<Rightarrow> bool" where
  "js_strict_ne x y = (x \<noteq> y \<or> x = JNaN)"

text \<open>The comparisons \<open>x < y\<close>, \<open>x > y\<close> and \<open>x <= y\<close>: false as soon as a side is NaN.\<close>

definition js_lt :: "jsval \<Rightarrow> jsval \<Rightarrow> bool" where
  "js_lt x y = (case (toNumber x, toNumber y) of (Some m, Some n) \<Rightarrow> m < n | _ \<Rightarrow> False)"

definition js_gt :: "jsval \<Rightarrow> jsval \<Rightarrow> bool" where
  "js_gt x y = js_lt y x"

definition js_le :: "jsval \<Rightarrow> jsval \<Rightarrow> bool" where
  "js_le x y = (case (toNumber x, toNumber y) of (Some m, Some n) \<Rightarrow> m \<le> n | _ \<Rightarrow> False)"

text \<open>Truthiness, as \<open>if (v)\<close>, \<open>v && ...\<close> and \<open>v || ...\<close> read it.\<close>

fun truthy :: "jsval \<Rightarrow> bool" where
  "truthy JUndefined = False"
| "truthy JNull = False"
| "truthy (JBool c) = c"
| "truthy (JNum n) = (n \<noteq> Fin 0)"
| "truthy JNaN = False"

text \<open>\<open>v ?? d\<close> and \<open>v || d\<close>.\<close>

definition nullish_or :: "jsval \<Rightarrow> jsval \<Rightarrow> jsval" where
  "nullish_or v d = (if v = JUndefined \<or> v = JNull then d else v)"

definition falsy_or :: "jsval \<Rightarrow> jsval \<Rightarrow> jsval" where
  "falsy_or v d = (if truthy v then v else d)"

section \<open>The tree model (types.ts)\<close>

datatype TreeNodeType = maxNode | minNode | randNode | leafNode

fun oppositeNodeType :: "TreeNodeType \<Rightarrow> TreeNodeType" where
  "oppositeNodeType maxNode = minNode"
| "oppositeNodeType minNode = maxNode"
| "oppositeNodeType t = t"

text \<open>
  \<open>TreeEdge\<close>: the visible \<open>pruned\<close> and \<open>entered\<close> flags and the shadow flag
  \<open>__pruned\<close>. The references \<open>source\<close> and \<open>target\<close> are fixed by where the edge
  hangs: an edge is stored in its target node (\<open>edgeToParent\<close>), whose parent is its source.
\<close>

record TreeEdge =
  edgePruned :: jsval
  edgeEntered :: jsval
  edgeShadowPruned :: jsval

text \<open>
  \<open>TreeNode\<close>: the fields of the interface. \<open>nodeValue\<close>, \<open>alpha\<close>, \<open>beta\<close>,
  \<open>nodeEntered\<close>, \<open>nodePruned\<close> are the visible \<open>value\<close>, \<open>alpha\<close>, \<open>beta\<close>,
  \<open>entered\<close>, \<open>pruned\<close>; \<open>shadowValue\<close>, \<open>shadowAlpha\<close>, \<open>shadowBeta\<close>,
  \<open>shadowPruned\<close> are the hidden \<open>__value\<close>, \<open>__alpha\<close>, \<open>__beta\<close>, \<open>__pruned\<close>.
  The back reference \<open>parentNode\<close> is the position of the node in the tree, and the
  layout coordinates \<open>x\<close>, \<open>y\<close> belong to the renderer.
\<close>

record TreeNodeF =
  nodeId :: nat
  nodeType :: TreeNodeType
  depth :: nat
  childNum :: nat
  nodeValue :: jsval
  alpha :: jsval
  beta :: jsval
  nodeEntered :: jsval
  nodePruned :: jsval
  shadowValue :: jsval
  shadowAlpha :: jsval
  shadowBeta :: jsval
  shadowPruned :: jsval
  edgeToParent :: "TreeEdge option"

text \<open>A node owns its children: the object graph below a root is a tree.\<close>

datatype TreeNode = TreeNode TreeNodeF "TreeNode list"

fun nfields :: "TreeNode \<Rightarrow> TreeNodeF" where
  "nfields (TreeNode nf cs) = nf"

fun children :: "TreeNode \<Rightarrow> TreeNode list" where
  "children (TreeNode nf cs) = cs"

record Tree =
  rootNode :: "TreeNode option"
  treeType :: TreeNodeType
  treeDepth :: nat
  branchingFactor :: nat
  mutable :: bool

definition createTree :: "TreeNodeType \<Rightarrow> nat \<Rightarrow> nat \<Rightarrow> Tree" where
  "createTree tt d bf =
     \<lparr>rootNode = None, treeType = tt, treeDepth = d, branchingFactor = bf, mutable = True\<rparr>"

section \<open>Object references and the heap\<close>

text \<open>
  An action holds a reference to a node or an edge. Every object of the graph is
  reached from the root along exactly one path of child indices, so a reference is
  that path: \<open>ONode p\<close> is the node at \<open>p\<close>, \<open>OEdge p\<close> is the edge between the node
  at \<open>p\<close> and its parent, and \<open>ONone\<close> is the \<open>undefined\<close> that stands for the
  missing edge of the root. The heap of a run is the tree under the root.
\<close>

datatype objref = ONode "nat list" | OEdge "nat list" | ONone

datatype fkey = KValue | KAlpha | KBeta | KEntered | KPruned

fun upd_at :: "nat list \<Rightarrow> (TreeNodeF \<Rightarrow> TreeNodeF) \<Rightarrow> TreeNode \<Rightarrow> TreeNode" where
  "upd_at [] f (TreeNode nf cs) = TreeNode (f nf) cs"
| "upd_at (k # p) f (TreeNode nf cs) =
     (if k < length cs then TreeNode nf (cs[k := upd_at p f (cs ! k)]) else TreeNode nf cs)"

fun node_at :: "nat list \<Rightarrow> TreeNode \<Rightarrow> TreeNode option" where
  "node_at [] t = Some t"
| "node_at (k # p) (TreeNode nf cs) = (if k < length cs then node_at p (cs ! k) else None)"

text \<open>\<open>object[key] = v\<close> on a node and on an edge.\<close>

fun set_node_key :: "fkey \<Rightarrow> jsval \<Rightarrow> TreeNodeF \<Rightarrow> TreeNodeF" where
  "set_node_key KValue v nf = nf\<lparr>nodeValue := v\<rparr>"
| "set_node_key KAlpha v nf = nf\<lparr>alpha := v\<rparr>"
| "set_node_key KBeta v nf = nf\<lparr>beta := v\<rparr>"
| "set_node_key KEntered v nf = nf\<lparr>nodeEntered := v\<rparr>"
| "set_node_key KPruned v nf = nf\<lparr>nodePruned := v\<rparr>"

fun get_node_key :: "fkey \<Rightarrow> TreeNodeF \<Rightarrow> jsval" where
  "get_node_key KValue nf = nodeValue nf"
| "get_node_key KAlpha nf = alpha nf"
| "get_node_key KBeta nf = beta nf"
| "get_node_key KEntered nf = nodeEntered nf"
| "get_node_key KPruned nf = nodePruned nf"

text \<open>
  The log writes only \<open>entered\<close> and \<open>pruned\<close> on edges; the other three keys name no
  field of an edge that this model keeps.
\<close>

fun set_edge_key :: "fkey \<Rightarrow> jsval \<Rightarrow> TreeEdge \<Rightarrow> TreeEdge" where
  "set_edge_key KEntered v e = e\<lparr>edgeEntered := v\<rparr>"
| "set_edge_key KPruned v e = e\<lparr>edgePruned := v\<rparr>"
| "set_edge_key k v e = e"

fun get_edge_key :: "fkey \<Rightarrow> TreeEdge \<Rightarrow> jsval option" where
  "get_edge_key KEntered e = Some (edgeEntered e)"
| "get_edge_key KPruned e = Some (edgePruned e)"
| "get_edge_key k e = None"

definition set_edge_of :: "fkey \<Rightarrow> jsval \<Rightarrow> TreeNodeF \<Rightarrow> TreeNodeF" where
  "set_edge_of k v nf = nf\<lparr>edgeToParent := map_option (set_edge_key k v) (edgeToParent nf)\<rparr>"

fun write_field :: "objref \<Rightarrow> fkey \<Rightarrow> jsval \<Rightarrow> TreeNode \<Rightarrow> TreeNode" where
  "write_field ONone k v t = t"
| "write_field (ONode p) k v t = upd_at p (set_node_key k v) t"
| "write_field (OEdge p) k v t = upd_at p (set_edge_of k v) t"

text \<open>
  Reading a field; \<open>None\<close> when the reference names no object of the tree, or the key
  no field that the model keeps for it.
\<close>

fun read_field :: "objref \<Rightarrow> fkey \<Rightarrow> TreeNode \<Rightarrow> jsval option" where
  "read_field ONone k t = None"
| "read_field (ONode p) k t = map_option (\<lambda>n. get_node_key k (nfields n)) (node_at p t)"
| "read_field (OEdge p) k t =
     (case node_at p t of None \<Rightarrow> None
      | Some n \<Rightarrow> (case edgeToParent (nfields n) of None \<Rightarrow> None | Some e \<Rightarrow> get_edge_key k e))"

section \<open>The reversible action log (class Action, class ActionListQueue)\<close>

record Action =
  object :: objref
  key :: fkey
  oldVal :: jsval
  newVal :: jsval

definition mkAction :: "objref \<Rightarrow> fkey \<Rightarrow> jsval \<Rightarrow> jsval \<Rightarrow> Action" where
  "mkAction ob k ov nv = \<lparr>object = ob, key = k, oldVal = ov, newVal = nv\<rparr>"

text \<open>\<open>apply\<close> and \<open>reverse\<close>: nothing for a missing object, else one field write.\<close>

definition apply_action :: "Action \<Rightarrow> TreeNode \<Rightarrow> TreeNode" where
  "apply_action a t = write_field (object a) (key a) (newVal a) t"

definition reverse_action :: "Action \<Rightarrow> TreeNode \<Rightarrow> TreeNode" where
  "reverse_action a t = write_field (object a) (key a) (oldVal a) t"

text \<open>
  The queue. \<open>qlength\<close> is the field \<open>length\<close>, kept beside the length of the array
  itself, as in the class.
\<close>

record ActionListQueue =
  inAction :: bool
  lastAction :: int
  actionListQueue :: "Action list list"
  qlength :: int

definition newActionListQueue :: ActionListQueue where
  "newActionListQueue = \<lparr>inAction = False, lastAction = -1, actionListQueue = [], qlength = 0\<rparr>"

definition pushActionList :: "Action list \<Rightarrow> ActionListQueue \<Rightarrow> bool \<times> ActionListQueue" where
  "pushActionList actionList q =
     (if inAction q then (False, q)
      else (True, q\<lparr>actionListQueue := actionListQueue q @ [actionList],
                     qlength := qlength q + 1\<rparr>))"

definition extendActionList :: "Action list list \<Rightarrow> ActionListQueue \<Rightarrow> bool \<times> ActionListQueue" where
  "extendActionList actionLists q =
     (if inAction q then (False, q)
      else (True, q\<lparr>actionListQueue := actionListQueue q @ actionLists,
                     qlength := qlength q + int (length actionLists)\<rparr>))"

text \<open>
  Reading a step by index. Outside the array JavaScript yields \<open>undefined\<close>, and the
  loop over it throws a TypeError: that is the error value here.
\<close>

datatype jserror = TypeError

definition step_at :: "Action list list \<Rightarrow> int \<Rightarrow> jserror + Action list" where
  "step_at steps i = (if 0 \<le> i \<and> i < int (length steps) then Inr (steps ! nat i) else Inl TypeError)"

definition stepForward :: "ActionListQueue \<Rightarrow> TreeNode \<Rightarrow> jserror + (bool \<times> ActionListQueue \<times> TreeNode)" where
  "stepForward q t =
     (if \<not> inAction q \<or> lastAction q = int (length (actionListQueue q)) - 1 then Inr (False, q, t)
      else let q1 = q\<lparr>lastAction := lastAction q + 1\<rparr> in
        case step_at (actionListQueue q1) (lastAction q1) of
          Inl e \<Rightarrow> Inl e
        | Inr actionList \<Rightarrow> Inr (True, q1, fold apply_action actionList t))"

definition stepBackward :: "ActionListQueue \<Rightarrow> TreeNode \<Rightarrow> jserror + (bool \<times> ActionListQueue \<times> TreeNode)" where
  "stepBackward q t =
     (if \<not> inAction q \<or> lastAction q = -1 then Inr (False, q, t)
      else case step_at (actionListQueue q) (lastAction q) of
          Inl e \<Rightarrow> Inl e
        | Inr actionList \<Rightarrow>
            Inr (True, q\<lparr>lastAction := lastAction q - 1\<rparr>, fold reverse_action actionList t))"

text \<open>\<open>while (this.stepForward()) {}\<close> and \<open>while (this.stepBackward()) {}\<close>.\<close>

function forwardLoop :: "ActionListQueue \<Rightarrow> TreeNode \<Rightarrow> jserror + (ActionListQueue \<times> TreeNode)" where
  "forwardLoop q t =
     (case stepForward q t of
        Inl e \<Rightarrow> Inl e
      | Inr (r, q', t') \<Rightarrow> if r then forwardLoop q' t' else Inr (q', t'))"
  by pat_completeness auto
termination
proof (relation "measure (\<lambda>(q, t). nat (int (length (actionListQueue q)) - lastAction q))")
  show "wf (measure (\<lambda>(q, t). nat (int (length (actionListQueue q)) - lastAction q)))"
    by simp
next
  fix q t x r y q' t'
  assume "stepForward q t = Inr x" "(r, y) = x" "(q', t') = y" "r"
  then have "stepForward q t = Inr (True, q', t')"
    by auto
  then have "lastAction q' = lastAction q + 1 \<and> lastAction q' < int (length (actionListQueue q)) \<and>
      actionListQueue q' = actionListQueue q"
    by (auto simp: stepForward_def step_at_def Let_def split: if_splits sum.splits)
  then show "((q', t'), (q, t)) \<in> measure (\<lambda>(q, t). nat (int (length (actionListQueue q)) - lastAction q))"
    by auto
qed

function backwardLoop :: "ActionListQueue \<Rightarrow> TreeNode \<Rightarrow> jserror + (ActionListQueue \<times> TreeNode)" where
  "backwardLoop q t =
     (case stepBackward q t of
        Inl e \<Rightarrow> Inl e
      | Inr (r, q', t') \<Rightarrow> if r then backwardLoop q' t' else Inr (q', t'))"
  by pat_completeness auto
termination
proof (relation "measure (\<lambda>(q, t). nat (lastAction q + 1))")
  show "wf (measure (\<lambda>(q, t). nat (lastAction q + 1)))"
    by simp
next
  fix q t x r y q' t'
  assume "stepBackward q t = Inr x" "(r, y) = x" "(q', t') = y" "r"
  then have "stepBackward q t = Inr (True, q', t')"
    by auto
  then have "lastAction q' = lastAction q - 1 \<and> 0 \<le> lastAction q"
    by (auto simp: stepBackward_def step_at_def split: if_splits sum.splits)
  then show "((q', t'), (q, t)) \<in> measure (\<lambda>(q, t). nat (lastAction q + 1))"
    by auto
qed

definition goToEnd :: "ActionListQueue \<Rightarrow> TreeNode \<Rightarrow> jserror + (ActionListQueue \<times> TreeNode)" where
  "goToEnd q t = (if \<not> inAction q then Inr (q, t) else forwardLoop q t)"

definition goToBeginning :: "ActionListQueue \<Rightarrow> TreeNode \<Rightarrow> jserror + (ActionListQueue \<times> TreeNode)" where
  "goToBeginning q t = (if \<not> inAction q then Inr (q, t) else backwardLoop q t)"

section \<open>The tree generator (generateABTreeRootNode)\<close>

text \<open>
  The generator reads two pieces of process state: the counter \<open>globalNodeId\<close>, and the
  random source. \<open>Math.random()\<close> is a parameter \<open>rnd\<close>: \<open>rnd i\<close> is the number its
  call number \<open>i\<close> returns (a finite double, at least 0 and below 1), and
  \<open>randomCalls\<close> counts the calls made so far. The bounds \<open>minVal\<close> and \<open>maxVal\<close> are
  numbers; the score of a leaf is computed from them in double arithmetic, so it is
  an integer for moderate bounds and can be an infinity or NaN for extreme ones.
\<close>

record GenState =
  globalNodeId :: nat
  randomCalls :: nat

text \<open>
  \<open>generateSubTree\<close>, and its loop over the child slots as \<open>generateChildren\<close> (\<open>k\<close> is
  the loop counter, \<open>pid\<close> the id of \<open>curNode\<close>). A parent reference is the parent's id;
  only its presence is read. The fields the object literal does not list stay
  \<open>undefined\<close>. Below the declared depth the source never reaches \<open>depth === maxDepth\<close>
  again and, with a child slot to fill, recurses without end: that is the result
  \<open>None\<close>.
\<close>

function generateSubTree ::
    "(nat \<Rightarrow> real) \<Rightarrow> nat \<Rightarrow> jsnum option \<Rightarrow> jsnum option \<Rightarrow> nat option \<Rightarrow> TreeNodeType \<Rightarrow> nat \<Rightarrow> nat
      \<Rightarrow> GenState \<Rightarrow> (TreeNode \<times> GenState) option"
  and generateChildren ::
    "(nat \<Rightarrow> real) \<Rightarrow> nat \<Rightarrow> jsnum option \<Rightarrow> jsnum option \<Rightarrow> nat \<Rightarrow> TreeNodeType \<Rightarrow> nat \<Rightarrow> nat \<Rightarrow> nat
      \<Rightarrow> GenState \<Rightarrow> (TreeNode list \<times> GenState) option"
where
  "generateSubTree rnd maxDepth minVal maxVal parentNode nodeType0 depth0 bFac s =
     (let s1 = s\<lparr>globalNodeId := globalNodeId s + 1\<rparr>;
          curNode = \<lparr>nodeId = globalNodeId s1, nodeType = nodeType0, depth = depth0,
                     childNum = bFac, nodeValue = JNull, alpha = JUndefined, beta = JUndefined,
                     nodeEntered = JUndefined, nodePruned = JUndefined,
                     shadowValue = JUndefined, shadowAlpha = JUndefined,
                     shadowBeta = JUndefined, shadowPruned = JUndefined,
                     edgeToParent =
                       (case parentNode of
                          None \<Rightarrow> None
                        | Some pn \<Rightarrow> Some \<lparr>edgePruned = JBool False, edgeEntered = JUndefined,
                                           edgeShadowPruned = JUndefined\<rparr>)\<rparr>
      in if depth0 = maxDepth
         then Some (TreeNode (curNode\<lparr>nodeType := leafNode,
                       nodeValue :=
                         of_number
                           (js_minus
                              (js_round (js_times (Some (Fin (rnd (randomCalls s1))))
                                           (js_minus maxVal minVal)))
                              maxVal)\<rparr>) [],
                    s1\<lparr>randomCalls := randomCalls s1 + 1\<rparr>)
         else if maxDepth < depth0 \<and> 0 < bFac then None
         else (case generateChildren rnd maxDepth minVal maxVal (nodeId curNode) nodeType0 depth0 bFac 0 s1 of
                 None \<Rightarrow> None
               | Some (cs, s2) \<Rightarrow> Some (TreeNode curNode cs, s2)))"
| "generateChildren rnd maxDepth minVal maxVal pid nodeType0 depth0 bFac k s =
     (if k < bFac
      then (case generateSubTree rnd maxDepth minVal maxVal (Some pid)
                   (oppositeNodeType nodeType0) (depth0 + 1) bFac s of
              None \<Rightarrow> None
            | Some (c, s1) \<Rightarrow>
                (case generateChildren rnd maxDepth minVal maxVal pid nodeType0 depth0 bFac (k + 1) s1 of
                   None \<Rightarrow> None
                 | Some (cs, s2) \<Rightarrow> Some (c # cs, s2)))
      else Some ([], s))"
  by pat_completeness auto
termination
  by (relation "inv_image (less_than <*lex*> less_than)
        (\<lambda>x. case x of
           Inl (rnd, maxDepth, minVal, maxVal, parentNode, nodeType0, depth0, bFac, s) \<Rightarrow>
             (if depth0 < maxDepth then 2 * (maxDepth - depth0) + 1
              else if bFac = 0 then 1 else 0, 0)
         | Inr (rnd, maxDepth, minVal, maxVal, pid, nodeType0, depth0, bFac, k, s) \<Rightarrow>
             (if depth0 < maxDepth then 2 * (maxDepth - depth0)
              else if bFac = 0 then 0 else 1, bFac - k))")
     auto

definition generateABTreeRootNode ::
    "(nat \<Rightarrow> real) \<Rightarrow> TreeNodeType \<Rightarrow> nat \<Rightarrow> nat \<Rightarrow> jsnum option \<Rightarrow> jsnum option \<Rightarrow> GenState
      \<Rightarrow> (TreeNode \<times> GenState) option" where
  "generateABTreeRootNode rnd treeType0 maxDepth bFac minVal maxVal s =
     generateSubTree rnd maxDepth minVal maxVal None treeType0 1 bFac s"

section \<open>The search compiler (generatePruneActionList, alphaBeta)\<close>

text \<open>
  \<open>pruneInner\<close> at the node with path \<open>p\<close>: the action and the shadow flag for its edge,
  then the first \<open>bFac\<close> children; a missing child is skipped. The result is the
  action list and the subtree with the shadow flags written.
  \<open>generatePruneActionList(node, bFac)\<close> is \<open>pruneInner\<close> on \<open>node\<close>, and the empty
  list when \<open>node\<close> is missing.
\<close>

fun pruneInner :: "nat \<Rightarrow> nat list \<Rightarrow> TreeNode \<Rightarrow> Action list \<times> TreeNode"
  and pruneChildren :: "nat \<Rightarrow> nat list \<Rightarrow> nat \<Rightarrow> TreeNode list \<Rightarrow> Action list \<times> TreeNode list"
where
  "pruneInner bFac p (TreeNode nf cs) =
     (let (own, nf1) =
            (case edgeToParent nf of
               None \<Rightarrow> ([], nf)
             | Some e \<Rightarrow> ([mkAction (OEdge p) KPruned (JBool False) (JBool True)],
                          nf\<lparr>edgeToParent := Some (e\<lparr>edgeShadowPruned := JBool True\<rparr>)\<rparr>));
          (acts, cs1) = pruneChildren bFac p 0 cs
      in (own @ acts, TreeNode nf1 cs1))"
| "pruneChildren bFac p k [] = ([], [])"
| "pruneChildren bFac p k (c # rest) =
     (if k < bFac
      then (let (a1, c1) = pruneInner bFac (p @ [k]) c;
                (a2, rest1) = pruneChildren bFac p (k + 1) rest
            in (a1 @ a2, c1 # rest1))
      else ([], c # rest))"

record ABResult =
  returnVal :: jsval
  enterActions :: "Action list"
  childActionsList :: "Action list list"
  exitActions :: "Action list"

text \<open>
  The local variables of one call of \<open>abActions\<close> that its loop updates, with the
  fields of \<open>node\<close> (the loop writes its shadow fields).
\<close>

record LoopState =
  lsA :: jsval
  lsB :: jsval
  lsCurVal :: jsval
  lsPruneRest :: bool
  lsLastChildExitActions :: "Action list"
  lsChildActionsList :: "Action list list"
  lsNode :: TreeNodeF

text \<open>
  The body of the loop when \<open>pruneRest\<close> is set: the prune actions of the child
  (\<open>acts\<close>), the node-level action, and the shadow flag of the node.
\<close>

definition pruneStep :: "nat list \<Rightarrow> Action list \<Rightarrow> LoopState \<Rightarrow> LoopState" where
  "pruneStep p acts st =
     st\<lparr>lsLastChildExitActions :=
          lsLastChildExitActions st @ acts @ [mkAction (ONode p) KPruned (JBool False) (JBool True)],
        lsNode := (lsNode st)\<lparr>shadowPruned := JBool True\<rparr>\<rparr>"

text \<open>
  The body of the loop after the recursive call returned \<open>res\<close>. The maximizer and the
  minimizer branch of the source differ in the comparison (\<open>>\<close> or \<open><\<close>) and in the
  bound they move (\<open>a\<close> with key \<open>alpha\<close>, or \<open>b\<close> with key \<open>beta\<close>); the cutoff test
  \<open>b <= a\<close> is the same.
\<close>

definition searchStep :: "bool \<Rightarrow> nat list \<Rightarrow> ABResult \<Rightarrow> LoopState \<Rightarrow> LoopState" where
  "searchStep isMaxNode p res st =
     (let better = (if isMaxNode then js_gt (returnVal res) (lsCurVal st)
                    else js_lt (returnVal res) (lsCurVal st));
          curVal1 = (if better then returnVal res else lsCurVal st);
          sv1 = (if better then [mkAction (ONode p) KValue (shadowValue (lsNode st)) curVal1] else []);
          nf1 = (if better then (lsNode st)\<lparr>shadowValue := curVal1\<rparr> else lsNode st);
          tighter = (if isMaxNode then js_gt (returnVal res) (lsA st)
                     else js_lt (returnVal res) (lsB st));
          a1 = (if isMaxNode \<and> tighter then returnVal res else lsA st);
          b1 = (if \<not> isMaxNode \<and> tighter then returnVal res else lsB st);
          sv2 = (if tighter
                 then (if isMaxNode then [mkAction (ONode p) KAlpha (shadowAlpha nf1) a1]
                       else [mkAction (ONode p) KBeta (shadowBeta nf1) b1])
                 else []);
          nf2 = (if tighter
                 then (if isMaxNode then nf1\<lparr>shadowAlpha := a1\<rparr> else nf1\<lparr>shadowBeta := b1\<rparr>)
                 else nf1);
          setValActions = sv1 @ sv2;
          resExit = (if childActionsList res \<noteq> [] then exitActions res @ setValActions
                     else exitActions res);
          resEnter = (if childActionsList res \<noteq> [] then enterActions res
                      else enterActions res @ setValActions) @ lsLastChildExitActions st
      in \<lparr>lsA = a1, lsB = b1, lsCurVal = curVal1,
          lsPruneRest = (if js_le b1 a1 then True else lsPruneRest st),
          lsLastChildExitActions = resExit,
          lsChildActionsList = lsChildActionsList st @ [resEnter] @ childActionsList res,
          lsNode = nf2\<rparr>)"

text \<open>
  \<open>abActions\<close> on the node at path \<open>p\<close>, and its loop \<open>abLoop\<close> over the child slots
  \<open>k < bFac\<close> (\<open>rem\<close> holds the children from slot \<open>k\<close> on). Both return the subtree with
  the shadow fields written. Searching a missing child reads \<open>edgeToParent\<close> of
  \<open>undefined\<close>, a TypeError; pruning a missing child adds no prune action.
\<close>

function abActions ::
    "nat \<Rightarrow> nat list \<Rightarrow> TreeNode \<Rightarrow> jsval \<Rightarrow> jsval \<Rightarrow> bool \<Rightarrow> jserror + (ABResult \<times> TreeNode)"
  and abLoop ::
    "nat \<Rightarrow> nat list \<Rightarrow> bool \<Rightarrow> nat \<Rightarrow> TreeNode list \<Rightarrow> LoopState \<Rightarrow> jserror + (LoopState \<times> TreeNode list)"
where
  "abActions bFac p (TreeNode nf cs) a b isMaxNode =
     (let edgeObj = (case edgeToParent nf of None \<Rightarrow> ONone | Some e \<Rightarrow> OEdge p);
          enterActions0 = [mkAction edgeObj KEntered (JBool False) (JBool True),
                           mkAction (ONode p) KEntered (JBool False) (JBool True)]
      in if nodeType nf = leafNode
         then Inr (\<lparr>returnVal = nodeValue nf, enterActions = enterActions0, childActionsList = [],
                    exitActions = [mkAction edgeObj KEntered (JBool True) (JBool False)]\<rparr>,
                   TreeNode nf cs)
         else (case abLoop bFac p isMaxNode 0 cs
                      \<lparr>lsA = a, lsB = b,
                       lsCurVal = JNum (if isMaxNode then NegInf else PosInf),
                       lsPruneRest = False, lsLastChildExitActions = [], lsChildActionsList = [],
                       lsNode = nf\<lparr>shadowAlpha := a, shadowBeta := b\<rparr>\<rparr> of
                 Inl e \<Rightarrow> Inl e
               | Inr (st, cs1) \<Rightarrow>
                   Inr (\<lparr>returnVal = lsCurVal st,
                         enterActions = enterActions0 @
                           [mkAction (ONode p) KAlpha (alpha nf) a, mkAction (ONode p) KBeta (beta nf) b],
                         childActionsList = lsChildActionsList st @ [lsLastChildExitActions st],
                         exitActions = [mkAction edgeObj KEntered (JBool True) (JBool False),
                                        mkAction (ONode p) KEntered (JBool True) (JBool False)]\<rparr>,
                        TreeNode (lsNode st) cs1)))"
| "abLoop bFac p isMaxNode k rem st =
     (if k < bFac
      then (if lsPruneRest st
            then (case rem of
                    [] \<Rightarrow> abLoop bFac p isMaxNode (k + 1) [] (pruneStep p [] st)
                  | c # rest \<Rightarrow>
                      (case pruneInner bFac (p @ [k]) c of
                         (acts, c1) \<Rightarrow>
                           (case abLoop bFac p isMaxNode (k + 1) rest (pruneStep p acts st) of
                              Inl e \<Rightarrow> Inl e
                            | Inr (st1, rest1) \<Rightarrow> Inr (st1, c1 # rest1))))
            else (case rem of
                    [] \<Rightarrow> Inl TypeError
                  | c # rest \<Rightarrow>
                      (case abActions bFac (p @ [k]) c (lsA st) (lsB st) (\<not> isMaxNode) of
                         Inl e \<Rightarrow> Inl e
                       | Inr (res, c1) \<Rightarrow>
                           (case abLoop bFac p isMaxNode (k + 1) rest (searchStep isMaxNode p res st) of
                              Inl e \<Rightarrow> Inl e
                            | Inr (st1, rest1) \<Rightarrow> Inr (st1, c1 # rest1)))))
      else Inr (st, rem))"
  by pat_completeness auto
termination
  by (relation "inv_image (less_than <*lex*> less_than)
        (\<lambda>x. case x of
           Inl (bFac, p, node, a, b, isMaxNode) \<Rightarrow> (size node, 0)
         | Inr (bFac, p, isMaxNode, k, rem, st) \<Rightarrow> (size_list size rem, bFac - k))")
     auto

text \<open>
  \<open>alphaBeta\<close>: the queue it returns, and the tree with the shadow fields the search
  wrote. The three pushes go to a fresh queue, whose \<open>inAction\<close> is false.
\<close>

definition alphaBeta :: "Tree \<Rightarrow> jserror + (ActionListQueue \<times> Tree)" where
  "alphaBeta tree =
     (case rootNode tree of
        None \<Rightarrow> Inr (newActionListQueue, tree)
      | Some rootN \<Rightarrow>
          (case abActions (branchingFactor tree) [] rootN (JNum NegInf) (JNum PosInf)
                  (treeType tree = maxNode) of
             Inl e \<Rightarrow> Inl e
           | Inr (res, rootN1) \<Rightarrow>
               Inr (snd (pushActionList (exitActions res)
                      (snd (extendActionList (childActionsList res)
                        (snd (pushActionList (enterActions res) newActionListQueue))))),
                    tree\<lparr>rootNode := Some rootN1\<rparr>)))"

section \<open>Reset, solution and verification (resetTree, setSolution, checkAnswer)\<close>

text \<open>
  Each of the three walks the children \<open>k < node.childNum\<close> and returns at once on a
  missing child; \<open>resetChildren\<close>, \<open>setSolutionChildren\<close> and \<open>checkChildren\<close> are
  these loops, \<open>n\<close> being \<open>childNum\<close> and \<open>k\<close> the counter.
\<close>

fun resetSubTree :: "TreeNode \<Rightarrow> TreeNode"
  and resetChildren :: "nat \<Rightarrow> nat \<Rightarrow> TreeNode list \<Rightarrow> TreeNode list"
where
  "resetSubTree (TreeNode nf cs) =
     (let nf1 = nf\<lparr>edgeToParent :=
                     map_option (\<lambda>e. e\<lparr>edgeEntered := JBool False, edgePruned := JBool False\<rparr>)
                       (edgeToParent nf),
                   nodeEntered := JBool False\<rparr>
      in if nodeType nf = leafNode then TreeNode nf1 cs
         else TreeNode (nf1\<lparr>nodeValue := JNull, alpha := JNull, beta := JNull\<rparr>)
                (resetChildren (childNum nf) 0 cs))"
| "resetChildren n k [] = []"
| "resetChildren n k (c # rest) =
     (if k < n then resetSubTree c # resetChildren n (k + 1) rest else c # rest)"

definition resetTree :: "TreeNode option \<Rightarrow> TreeNode option" where
  "resetTree rootN = map_option resetSubTree rootN"

fun setSolutionForSubTree :: "TreeNode \<Rightarrow> TreeNode"
  and setSolutionChildren :: "nat \<Rightarrow> nat \<Rightarrow> TreeNode list \<Rightarrow> TreeNode list"
where
  "setSolutionForSubTree (TreeNode nf cs) =
     (let nf1 = nf\<lparr>edgeToParent :=
                     map_option (\<lambda>e. e\<lparr>edgePruned := falsy_or (edgeShadowPruned e) (JBool False)\<rparr>)
                       (edgeToParent nf)\<rparr>
      in if nodeType nf = leafNode then TreeNode nf1 cs
         else TreeNode (nf1\<lparr>nodeValue := nullish_or (shadowValue nf) JNull,
                             alpha := nullish_or (shadowAlpha nf) JNull,
                             beta := nullish_or (shadowBeta nf) JNull,
                             nodePruned := falsy_or (shadowPruned nf) (JBool False)\<rparr>)
                (setSolutionChildren (childNum nf) 0 cs))"
| "setSolutionChildren n k [] = []"
| "setSolutionChildren n k (c # rest) =
     (if k < n then setSolutionForSubTree c # setSolutionChildren n (k + 1) rest else c # rest)"

definition setSolution :: "TreeNode option \<Rightarrow> TreeNode option" where
  "setSolution rootN = map_option setSolutionForSubTree rootN"

fun checkSubTree :: "TreeNode \<Rightarrow> bool"
  and checkChildren :: "nat \<Rightarrow> nat \<Rightarrow> TreeNode list \<Rightarrow> bool"
where
  "checkSubTree (TreeNode nf cs) =
     (if nodeType nf = leafNode then True
      else if js_strict_ne (nodeValue nf) (shadowValue nf) then False
      else if (case edgeToParent nf of
                 None \<Rightarrow> False
               | Some e \<Rightarrow> truthy (edgeShadowPruned e) \<and>
                            js_strict_ne (edgeShadowPruned e) (edgePruned e))
           then False
      else checkChildren (childNum nf) 0 cs)"
| "checkChildren n k [] = True"
| "checkChildren n k (c # rest) =
     (if k < n then checkSubTree c \<and> checkChildren n (k + 1) rest else True)"

definition checkAnswer :: "TreeNode option \<Rightarrow> bool" where
  "checkAnswer rootN = (case rootN of None \<Rightarrow> True | Some n \<Rightarrow> checkSubTree n)"

section \<open>The caller (App): compiling once, entering and leaving playback\<close>

text \<open>
  \<open>treeRef\<close> and \<open>actionRef\<close> of the component. \<open>ensureAction\<close> compiles the search
  when no queue is cached; \<open>toggleABVisual\<close> resets the visible state and then either
  leaves playback (rewinding first) or enters it.
\<close>

record App =
  treeRef :: Tree
  actionRef :: "ActionListQueue option"

definition ensureAction :: "App \<Rightarrow> jserror + (ActionListQueue \<times> App)" where
  "ensureAction app =
     (case actionRef app of
        Some aq \<Rightarrow> Inr (aq, app)
      | None \<Rightarrow>
          (case alphaBeta (treeRef app) of
             Inl e \<Rightarrow> Inl e
           | Inr (aq, tree1) \<Rightarrow> Inr (aq, app\<lparr>treeRef := tree1, actionRef := Some aq\<rparr>)))"

text \<open>The step functions work on the root they were compiled for; none if the tree has no root.\<close>

definition onRoot ::
    "(TreeNode \<Rightarrow> jserror + (ActionListQueue \<times> TreeNode)) \<Rightarrow> ActionListQueue \<Rightarrow> Tree
      \<Rightarrow> jserror + (ActionListQueue \<times> Tree)" where
  "onRoot f aq tree =
     (case rootNode tree of
        None \<Rightarrow> Inr (aq, tree)
      | Some rootN \<Rightarrow>
          (case f rootN of
             Inl e \<Rightarrow> Inl e
           | Inr (aq1, rootN1) \<Rightarrow> Inr (aq1, tree\<lparr>rootNode := Some rootN1\<rparr>)))"

definition toggleABVisual :: "App \<Rightarrow> jserror + App" where
  "toggleABVisual app =
     (case ensureAction app of
        Inl e \<Rightarrow> Inl e
      | Inr (aq, app1) \<Rightarrow>
          (let t1 = (treeRef app1)\<lparr>rootNode := resetTree (rootNode (treeRef app1))\<rparr>
           in if inAction aq
              then (case onRoot (goToBeginning aq) aq t1 of
                      Inl e \<Rightarrow> Inl e
                    | Inr (aq1, t2) \<Rightarrow>
                        Inr \<lparr>treeRef = t2\<lparr>mutable := True\<rparr>,
                             actionRef = Some (aq1\<lparr>inAction := False\<rparr>)\<rparr>)
              else Inr \<lparr>treeRef = t1\<lparr>mutable := False\<rparr>,
                        actionRef = Some (aq\<lparr>inAction := True\<rparr>)\<rparr>))"

section \<open>Call sequences on a queue\<close>

text \<open>
  What a client can do with a queue: call its methods, and write its public field
  \<open>inAction\<close> (as the caller does when it enters and leaves playback). \<open>calls\<close> runs a
  sequence of such calls from a state, stopping at the first error.
\<close>

datatype QueueCall =
    PushActionList "Action list"
  | ExtendActionList "Action list list"
  | StepForward
  | StepBackward
  | GoToEnd
  | GoToBeginning
  | SetInAction bool

fun call :: "QueueCall \<Rightarrow> ActionListQueue \<times> TreeNode \<Rightarrow> jserror + (ActionListQueue \<times> TreeNode)" where
  "call (PushActionList actionList) (q, t) = Inr (snd (pushActionList actionList q), t)"
| "call (ExtendActionList actionLists) (q, t) = Inr (snd (extendActionList actionLists q), t)"
| "call StepForward (q, t) = map_sum id snd (stepForward q t)"
| "call StepBackward (q, t) = map_sum id snd (stepBackward q t)"
| "call GoToEnd (q, t) = goToEnd q t"
| "call GoToBeginning (q, t) = goToBeginning q t"
| "call (SetInAction v) (q, t) = Inr (q\<lparr>inAction := v\<rparr>, t)"

fun calls :: "QueueCall list \<Rightarrow> ActionListQueue \<times> TreeNode \<Rightarrow> jserror + (ActionListQueue \<times> TreeNode)" where
  "calls [] s = Inr s"
| "calls (c # cs) s = (case call c s of Inl e \<Rightarrow> Inl e | Inr s1 \<Rightarrow> calls cs s1)"

section \<open>The worked scenario\<close>

text \<open>
  The tree of depth 3 and branching factor 2 under a maximizing root whose leaves are
  3, 5, 2, 9 from left to right: the generator with the range \<open>[-20, 20]\<close> of the
  caller and random numbers that give these leaves (the doubles 0.5625, 0.625,
  0.546875 and 0.71875; times 40 they are 22.5, 25, 21.875 and 28.75).
\<close>

definition scenario_rnd :: "nat \<Rightarrow> real" where
  "scenario_rnd i =
     (if i = 0 then 9 / 16 else if i = 1 then 5 / 8 else if i = 2 then 35 / 64 else 23 / 32)"

definition scenario_tree :: Tree where
  "scenario_tree =
     (createTree maxNode 3 2)\<lparr>rootNode :=
        map_option fst (generateABTreeRootNode scenario_rnd maxNode 3 2
                          (Some (Fin (- 20))) (Some (Fin 20))
                          \<lparr>globalNodeId = 0, randomCalls = 0\<rparr>)\<rparr>"

text \<open>
  The scenario after the search was compiled, and then with the answer of a learner who
  typed the right value into each of the three interior nodes and marked no edge.
\<close>

definition scenario_compiled :: Tree where
  "scenario_compiled = (case alphaBeta scenario_tree of Inl e \<Rightarrow> scenario_tree | Inr (q, t) \<Rightarrow> t)"

definition scenario_answer :: "TreeNode option" where
  "scenario_answer =
     map_option
       (\<lambda>n. write_field (ONode [1]) KValue (JNum (Fin 2))
              (write_field (ONode [0]) KValue (JNum (Fin 3))
                (write_field (ONode []) KValue (JNum (Fin 3)) n)))
       (rootNode scenario_compiled)"

text \<open>The smallest tree the generator builds: declared depth 1, a single leaf (worth 3).\<close>

definition leaf_tree :: Tree where
  "leaf_tree =
     (createTree maxNode 1 2)\<lparr>rootNode :=
        map_option fst (generateABTreeRootNode scenario_rnd maxNode 1 2
                          (Some (Fin (- 20))) (Some (Fin 20))
                          \<lparr>globalNodeId = 0, randomCalls = 0\<rparr>)\<rparr>"

definition rootShadowValue :: "Tree \<Rightarrow> jsval" where
  "rootShadowValue tree =
     (case rootNode tree of None \<Rightarrow> JUndefined | Some n \<Rightarrow> shadowValue (nfields n))"

section \<open>What the generator builds\<close>

text \<open>A value of type number (NaN and the infinities are numbers), and a finite number.\<close>

fun is_number :: "jsval \<Rightarrow> bool" where
  "is_number (JNum n) = True"
| "is_number JNaN = True"
| "is_number v = False"

fun is_finite_num :: "jsval \<Rightarrow> bool" where
  "is_finite_num (JNum (Fin r)) = True"
| "is_finite_num v = False"

text \<open>No search and no playback has touched the node: the fields they write are unset.\<close>

definition fresh_fields :: "TreeNodeF \<Rightarrow> bool" where
  "fresh_fields nf =
     (alpha nf = JUndefined \<and> beta nf = JUndefined \<and> nodeEntered nf = JUndefined \<and>
      nodePruned nf = JUndefined \<and> shadowValue nf = JUndefined \<and> shadowAlpha nf = JUndefined \<and>
      shadowBeta nf = JUndefined \<and> shadowPruned nf = JUndefined)"

text \<open>
  \<open>gen_ok maxDepth bFac isRoot kind d n\<close>: the node \<open>n\<close> is at depth \<open>d\<close> with \<open>bFac\<close>
  child slots and untouched search fields; it has no edge if it is the root and
  otherwise an edge whose \<open>pruned\<close> is false and whose \<open>entered\<close> and \<open>__pruned\<close> are
  unset; at the declared depth it is a leaf with a number as value and no
  children; above it, it has the kind \<open>kind\<close>, the value \<open>null\<close> and exactly \<open>bFac\<close>
  children, each built the same way with the opposite kind, one level down.
\<close>

fun gen_ok :: "nat \<Rightarrow> nat \<Rightarrow> bool \<Rightarrow> TreeNodeType \<Rightarrow> nat \<Rightarrow> TreeNode \<Rightarrow> bool" where
  "gen_ok maxDepth bFac isRoot kind d (TreeNode nf cs) =
     (depth nf = d \<and> childNum nf = bFac \<and> fresh_fields nf \<and>
      edgeToParent nf =
        (if isRoot then None
         else Some \<lparr>edgePruned = JBool False, edgeEntered = JUndefined, edgeShadowPruned = JUndefined\<rparr>) \<and>
      (if d = maxDepth then nodeType nf = leafNode \<and> is_number (nodeValue nf) \<and> cs = []
       else nodeType nf = kind \<and> nodeValue nf = JNull \<and> length cs = bFac \<and>
            (\<forall>c \<in> set cs. gen_ok maxDepth bFac False (oppositeNodeType kind) (d + 1) c)))"

section \<open>The visible part of a tree\<close>

text \<open>
  \<open>withoutShadow\<close> forgets the hidden fields (\<open>__value\<close>, \<open>__alpha\<close>, \<open>__beta\<close>,
  \<open>__pruned\<close> of the nodes, \<open>__pruned\<close> of the edges) and keeps everything else: the
  shape, the ids, the kinds and every visible field.
\<close>

definition withoutShadowF :: "TreeNodeF \<Rightarrow> TreeNodeF" where
  "withoutShadowF nf =
     nf\<lparr>shadowValue := JUndefined, shadowAlpha := JUndefined, shadowBeta := JUndefined,
        shadowPruned := JUndefined,
        edgeToParent := map_option (\<lambda>e. e\<lparr>edgeShadowPruned := JUndefined\<rparr>) (edgeToParent nf)\<rparr>"

fun withoutShadow :: "TreeNode \<Rightarrow> TreeNode" where
  "withoutShadow (TreeNode nf cs) = TreeNode (withoutShadowF nf) (map withoutShadow cs)"

text \<open>A visible field of an object of the tree, by reference and key.\<close>

definition visibleField :: "Tree \<Rightarrow> objref \<Rightarrow> fkey \<Rightarrow> jsval option" where
  "visibleField tree ob k = (case rootNode tree of None \<Rightarrow> None | Some n \<Rightarrow> read_field ob k n)"

text \<open>The shadow flag of the edge into the node at a path.\<close>

definition edgeShadowAt :: "nat list \<Rightarrow> TreeNode \<Rightarrow> jsval option" where
  "edgeShadowAt p t =
     (case node_at p t of None \<Rightarrow> None
      | Some n \<Rightarrow> map_option edgeShadowPruned (edgeToParent (nfields n)))"

section \<open>Full minimax, and the trees the search is meant for\<close>

text \<open>
  The value of a tree by plain minimax, read off the node kinds and the leaf values
  alone, with no bounds and no cutoff: a leaf is worth the number it holds, a \<open>maxNode\<close>
  the greatest and a \<open>minNode\<close> the least value among all its children (\<open>best\<close> folds
  over the children). Where a leaf holds no number, or a node has another kind, there
  is no value.
\<close>

fun minimax :: "TreeNode \<Rightarrow> jsnum option"
  and best :: "bool \<Rightarrow> TreeNode list \<Rightarrow> jsnum option"
where
  "minimax (TreeNode nf cs) =
     (case nodeType nf of
        leafNode \<Rightarrow> (case nodeValue nf of JNum n \<Rightarrow> Some n | _ \<Rightarrow> None)
      | maxNode \<Rightarrow> best True cs
      | minNode \<Rightarrow> best False cs
      | randNode \<Rightarrow> None)"
| "best isMax [] = Some (if isMax then NegInf else PosInf)"
| "best isMax (c # cs) =
     (case (minimax c, best isMax cs) of
        (Some x, Some y) \<Rightarrow> Some (if isMax then max x y else min x y)
      | _ \<Rightarrow> None)"

text \<open>
  \<open>search_ok bFac isRoot kind h n\<close>: \<open>n\<close> is a complete tree of height \<open>h\<close>. At height 0
  it is a leaf holding a finite number; above, it is an interior node of kind \<open>kind\<close>
  with exactly \<open>bFac\<close> children of the opposite kind and of height \<open>h - 1\<close>. The root
  has no edge to a parent, every other node has one.
\<close>

fun search_ok :: "nat \<Rightarrow> bool \<Rightarrow> TreeNodeType \<Rightarrow> nat \<Rightarrow> TreeNode \<Rightarrow> bool" where
  "search_ok bFac isRoot kind h (TreeNode nf cs) =
     ((edgeToParent nf = None) = isRoot \<and>
      (case h of
         0 \<Rightarrow> nodeType nf = leafNode \<and> is_finite_num (nodeValue nf)
       | Suc h1 \<Rightarrow> nodeType nf = kind \<and> length cs = bFac \<and>
           (\<forall>c \<in> set cs. search_ok bFac False (oppositeNodeType kind) h1 c)))"

text \<open>Every leaf of the tree holds a finite number.\<close>

fun finite_leaves :: "TreeNode \<Rightarrow> bool" where
  "finite_leaves (TreeNode nf cs) =
     ((nodeType nf = leafNode \<longrightarrow> is_finite_num (nodeValue nf)) \<and> (\<forall>c \<in> set cs. finite_leaves c))"

text \<open>
  Every node that the search treats as interior has a child in each of its first
  \<open>bFac\<close> slots, so that the search never reads a missing child.
\<close>

fun complete :: "nat \<Rightarrow> TreeNode \<Rightarrow> bool" where
  "complete bFac (TreeNode nf cs) =
     (nodeType nf = leafNode \<or> (bFac \<le> length cs \<and> (\<forall>c \<in> set cs. complete bFac c)))"

text \<open>
  What the value returned by a search with the bounds \<open>x < y\<close> says about the minimax
  value \<open>m\<close>: at or below \<open>x\<close> it is an upper bound of \<open>m\<close>, at or above \<open>y\<close> a lower
  bound, and strictly between the bounds it is \<open>m\<close>.
\<close>

definition fs_bounds :: "jsnum \<Rightarrow> jsnum \<Rightarrow> jsnum \<Rightarrow> jsnum \<Rightarrow> bool" where
  "fs_bounds x y v m = ((v \<le> x \<longrightarrow> m \<le> v) \<and> (x < v \<and> v < y \<longrightarrow> m = v) \<and> (y \<le> v \<longrightarrow> v \<le> m))"

text \<open>
  The same for the loop over the children of a node, from a point where the running
  value is \<open>cv\<close> and the bounds are \<open>al < be\<close>: \<open>cv1\<close> is the running value at the end
  and \<open>M\<close> the plain minimax value of the children still to come.
\<close>

definition loopspec :: "bool \<Rightarrow> jsnum \<Rightarrow> jsnum \<Rightarrow> jsnum \<Rightarrow> jsnum \<Rightarrow> jsnum \<Rightarrow> bool" where
  "loopspec isMax al be cv cv1 M =
     ((if isMax then cv \<le> cv1 else cv1 \<le> cv) \<and>
      (cv1 \<le> al \<longrightarrow> M \<le> cv1) \<and> (al < cv1 \<and> cv1 < be \<longrightarrow> M = cv1) \<and> (be \<le> cv1 \<longrightarrow> cv1 \<le> M))"

text \<open>The shadow value of the node follows the running value once it has moved.\<close>

definition sv_inv :: "bool \<Rightarrow> LoopState \<Rightarrow> bool" where
  "sv_inv isMax st =
     (lsCurVal st = JNum (if isMax then NegInf else PosInf) \<or> shadowValue (lsNode st) = lsCurVal st)"

fun is_fin :: "jsnum \<Rightarrow> bool" where
  "is_fin (Fin r) = True"
| "is_fin n = False"

section \<open>Changing the leaves of pruned subtrees\<close>

text \<open>
  \<open>perturb f inside p n\<close> walks the subtree \<open>n\<close> at path \<open>p\<close> and gives every leaf that
  lies below an edge whose shadow flag \<open>__pruned\<close> is set the new value \<open>f q\<close>, \<open>q\<close>
  being the path of the leaf; \<open>f\<close> is arbitrary (any value at all, every number among
  them). \<open>inside\<close> tells that such an edge was
  already passed. Nothing else changes.
\<close>

fun perturb :: "(nat list \<Rightarrow> jsval) \<Rightarrow> bool \<Rightarrow> nat list \<Rightarrow> TreeNode \<Rightarrow> TreeNode"
  and perturbChildren :: "(nat list \<Rightarrow> jsval) \<Rightarrow> bool \<Rightarrow> nat list \<Rightarrow> nat \<Rightarrow> TreeNode list \<Rightarrow> TreeNode list"
where
  "perturb f inside p (TreeNode nf cs) =
     (let ins = (inside \<or> (case edgeToParent nf of None \<Rightarrow> False
                                | Some e \<Rightarrow> truthy (edgeShadowPruned e)))
      in TreeNode (if ins \<and> nodeType nf = leafNode then nf\<lparr>nodeValue := f p\<rparr> else nf)
                  (perturbChildren f ins p 0 cs))"
| "perturbChildren f ins p k [] = []"
| "perturbChildren f ins p k (c # cs) =
     perturb f ins (p @ [k]) c # perturbChildren f ins p (k + 1) cs"

text \<open>No edge of the subtree has its shadow flag set.\<close>

fun no_pruned :: "TreeNode \<Rightarrow> bool" where
  "no_pruned (TreeNode nf cs) =
     ((case edgeToParent nf of None \<Rightarrow> True | Some e \<Rightarrow> \<not> truthy (edgeShadowPruned e)) \<and>
      (\<forall>c \<in> set cs. no_pruned c))"

text \<open>Two loop states with the same bounds, running value and cutoff flag.\<close>

definition agree :: "LoopState \<Rightarrow> LoopState \<Rightarrow> bool" where
  "agree st st' =
     (lsA st = lsA st' \<and> lsB st = lsB st' \<and> lsCurVal st = lsCurVal st' \<and>
      lsPruneRest st = lsPruneRest st')"

text \<open>
  The shadow value of the node in the second of two runs: the one of the first run at
  the same point, or still the value \<open>v\<close> the second run started from.
\<close>

definition same_shadow :: "jsval \<Rightarrow> LoopState \<Rightarrow> LoopState \<Rightarrow> bool" where
  "same_shadow v st st' =
     (shadowValue (lsNode st') = shadowValue (lsNode st) \<or> shadowValue (lsNode st') = v)"

section \<open>What a playback does to one field\<close>

text \<open>
  The target of an action is its object and key. \<open>last_old step tg\<close> is the old value
  of the last action of \<open>step\<close> that targets \<open>tg\<close>, and \<open>first_old steps tg\<close> the same in
  the first step of \<open>steps\<close> that targets \<open>tg\<close> at all: the value a full rewind leaves in
  the field, since \<open>stepBackward\<close> reverses the actions of a step in their recorded
  order and the steps from the last to the first.
\<close>

definition target :: "Action \<Rightarrow> objref \<times> fkey" where
  "target a = (object a, key a)"

fun last_old :: "Action list \<Rightarrow> objref \<times> fkey \<Rightarrow> jsval option" where
  "last_old [] tg = None"
| "last_old (a # as) tg =
     (case last_old as tg of
        Some v \<Rightarrow> Some v
      | None \<Rightarrow> if target a = tg then Some (oldVal a) else None)"

fun first_old :: "Action list list \<Rightarrow> objref \<times> fkey \<Rightarrow> jsval option" where
  "first_old [] tg = None"
| "first_old (s # ss) tg = (case last_old s tg of Some v \<Rightarrow> Some v | None \<Rightarrow> first_old ss tg)"

text \<open>Applying all the steps in order, and reversing them all from the last to the first.\<close>

definition playForward :: "Action list list \<Rightarrow> TreeNode \<Rightarrow> TreeNode" where
  "playForward steps t = fold (\<lambda>step. fold apply_action step) steps t"

definition playBackward :: "Action list list \<Rightarrow> TreeNode \<Rightarrow> TreeNode" where
  "playBackward steps t = fold (\<lambda>step. fold reverse_action step) (rev steps) t"

section \<open>The old values a compiled log records\<close>

text \<open>
  The old value that the first action on a field carries in the log of a fresh tree:
  \<open>false\<close> for \<open>entered\<close> and \<open>pruned\<close>, and \<open>undefined\<close> for \<open>value\<close>, \<open>alpha\<close> and
  \<open>beta\<close> (the fields were never set when the search was compiled).
\<close>

fun exp_old :: "fkey \<Rightarrow> jsval" where
  "exp_old KEntered = JBool False"
| "exp_old KPruned = JBool False"
| "exp_old k = JUndefined"

text \<open>A field is either untouched by the log, or rewinds to that expected value.\<close>

definition old_ok :: "jsval option \<Rightarrow> objref \<times> fkey \<Rightarrow> bool" where
  "old_ok v tg = (v = None \<or> v = Some (exp_old (snd tg)))"

text \<open>No node of the subtree has a search field set.\<close>

fun all_fresh :: "TreeNode \<Rightarrow> bool" where
  "all_fresh (TreeNode nf cs) = (fresh_fields nf \<and> (\<forall>c \<in> set cs. all_fresh c))"

text \<open>
  The same for the steps a loop of \<open>abActions\<close> has collected so far at the node with
  path \<open>p\<close>, the pending exit actions last: all fields but the node's own bounds (their
  first action lies in the enter step of the node) rewind to the expected value, and
  as long as no step writes the node's value its shadow value is still unset.
\<close>

definition loop_olds :: "nat list \<Rightarrow> LoopState \<Rightarrow> bool" where
  "loop_olds p st =
     ((\<forall>tg. tg \<notin> {(ONode p, KAlpha), (ONode p, KBeta)} \<longrightarrow>
         old_ok (first_old (lsChildActionsList st @ [lsLastChildExitActions st]) tg) tg) \<and>
      (first_old (lsChildActionsList st @ [lsLastChildExitActions st]) (ONode p, KValue) = None \<longrightarrow>
         shadowValue (lsNode st) = JUndefined))"

section \<open>Which nodes the log gives a value, and the state after a reset\<close>

text \<open>The node at a path exists and is not a leaf.\<close>

definition interior_at :: "nat list \<Rightarrow> TreeNode \<Rightarrow> bool" where
  "interior_at p t = (case node_at p t of None \<Rightarrow> False | Some n \<Rightarrow> nodeType (nfields n) \<noteq> leafNode)"

text \<open>All the actions a loop has collected, and all the actions of a result.\<close>

definition allActs :: "LoopState \<Rightarrow> Action set" where
  "allActs st = (\<Union>step \<in> set (lsChildActionsList st). set step) \<union> set (lsLastChildExitActions st)"

definition resActs :: "ABResult \<Rightarrow> Action set" where
  "resActs res =
     set (enterActions res) \<union> (\<Union>step \<in> set (childActionsList res). set step) \<union> set (exitActions res)"

text \<open>
  The visible state \<open>resetTree\<close> leaves in a freshly generated tree: every \<open>entered\<close>
  flag and every edge's \<open>pruned\<close> flag false, the node-level \<open>pruned\<close> still unset,
  \<open>value\<close>, \<open>alpha\<close> and \<open>beta\<close> of the interior nodes \<open>null\<close>, and the bounds of the
  leaves still unset.
\<close>

fun reset_state :: "TreeNode \<Rightarrow> bool" where
  "reset_state (TreeNode nf cs) =
     (nodeEntered nf = JBool False \<and> nodePruned nf = JUndefined \<and>
      (case edgeToParent nf of
         None \<Rightarrow> True
       | Some e \<Rightarrow> edgeEntered e = JBool False \<and> edgePruned e = JBool False) \<and>
      (if nodeType nf = leafNode then alpha nf = JUndefined \<and> beta nf = JUndefined
       else nodeValue nf = JNull \<and> alpha nf = JNull \<and> beta nf = JNull) \<and>
      (\<forall>c \<in> set cs. reset_state c))"

section \<open>A full playback round trip\<close>

text \<open>
  Entering playback on a tree whose search has not been compiled yet
  (\<open>toggleABVisual\<close>), running \<open>goToEnd\<close> (\<open>stepForward\<close> until it returns false) and
  then \<open>goToBeginning\<close> (\<open>stepBackward\<close> until it returns false). The result is the
  tree as playback found it, the queue at the end, and the tree at the end.
\<close>

definition playbackRoundTrip :: "Tree \<Rightarrow> jserror + (Tree \<times> ActionListQueue \<times> Tree)" where
  "playbackRoundTrip tree =
     (case toggleABVisual \<lparr>treeRef = tree, actionRef = None\<rparr> of
        Inl e \<Rightarrow> Inl e
      | Inr app1 \<Rightarrow>
          (case actionRef app1 of
             None \<Rightarrow> Inl TypeError
           | Some q \<Rightarrow>
               (case onRoot (goToEnd q) q (treeRef app1) of
                  Inl e \<Rightarrow> Inl e
                | Inr (q2, t2) \<Rightarrow>
                    (case onRoot (goToBeginning q2) q2 t2 of
                       Inl e \<Rightarrow> Inl e
                     | Inr (q3, t3) \<Rightarrow> Inr (treeRef app1, q3, t3)))))"

fun is_node :: "objref \<Rightarrow> bool" where
  "is_node (ONode p) = True"
| "is_node ob = False"

text \<open>
  How a field reads after the round trip, against how it read before: the same, or
  \<open>undefined\<close> where a node's \<open>value\<close>, \<open>alpha\<close> or \<open>beta\<close> was \<open>null\<close>, or \<open>false\<close>
  where a node's \<open>pruned\<close> was unset.
\<close>

definition rewound :: "objref \<Rightarrow> fkey \<Rightarrow> jsval option \<Rightarrow> jsval option \<Rightarrow> bool" where
  "rewound ob k before after =
     (after = before \<or>
      (is_node ob \<and> k \<in> {KValue, KAlpha, KBeta} \<and> before = Some JNull \<and> after = Some JUndefined) \<or>
      (is_node ob \<and> k = KPruned \<and> before = Some JUndefined \<and> after = Some (JBool False)))"

section \<open>Actions of one step that write the same field\<close>

text \<open>
  A tree of depth 3 and branching factor 3 under a maximizing root, with the leaves
  3, 5, 4, 2, 9, 0, 7, 8, 6 from left to right (the generator with the bounds -20 and
  20 and random doubles that give these leaves). The second minimizer is cut off after its first leaf, so two of its
  children are pruned.
\<close>

definition scenario3_rnd :: "nat \<Rightarrow> real" where
  "scenario3_rnd i = [9 / 16, 5 / 8, 19 / 32, 35 / 64, 23 / 32, 1 / 2, 43 / 64, 45 / 64, 21 / 32] ! i"

definition scenario3_tree :: Tree where
  "scenario3_tree =
     (createTree maxNode 3 3)\<lparr>rootNode :=
        map_option fst (generateABTreeRootNode scenario3_rnd maxNode 3 3
                          (Some (Fin (- 20))) (Some (Fin 20))
                          \<lparr>globalNodeId = 0, randomCalls = 0\<rparr>)\<rparr>"

text \<open>
  \<open>uniform h n\<close>: all the leaves of \<open>n\<close> lie \<open>h\<close> levels down, and every node below \<open>n\<close>
  has an edge to its parent.
\<close>

fun uniform :: "nat \<Rightarrow> TreeNode \<Rightarrow> bool" where
  "uniform h (TreeNode nf cs) =
     (case h of
        0 \<Rightarrow> nodeType nf = leafNode
      | Suc h1 \<Rightarrow> nodeType nf \<noteq> leafNode \<and>
          (\<forall>c \<in> set cs. edgeToParent (nfields c) \<noteq> None \<and> uniform h1 c))"

text \<open>Any two actions of the step that write the same field carry the same old and new value.\<close>

definition consistent :: "Action list \<Rightarrow> bool" where
  "consistent step =
     (\<forall>a \<in> set step. \<forall>b \<in> set step. target a = target b \<longrightarrow> oldVal a = oldVal b \<and> newVal a = newVal b)"

text \<open>
  \<open>below p k q\<close>: the path \<open>q\<close> leads into one of the first \<open>k\<close> child slots of the node
  at \<open>p\<close>.
\<close>

definition below :: "nat list \<Rightarrow> nat \<Rightarrow> nat list \<Rightarrow> bool" where
  "below p k q = (length p < length q \<and> take (length p) q = p \<and> q ! length p < k)"

text \<open>
  What the loop of \<open>abActions\<close> at the node \<open>p\<close> keeps in its pending exit actions before
  slot \<open>k\<close>: \<open>pruned\<close> actions, all from false to true; actions on objects below the
  earlier slots; and, when the children are not leaves (\<open>lf\<close> false), the node's own
  \<open>value\<close>, \<open>alpha\<close> and \<open>beta\<close>.
\<close>

definition loc_ok :: "nat list \<Rightarrow> nat \<Rightarrow> bool \<Rightarrow> Action \<Rightarrow> bool" where
  "loc_ok p k lf a =
     (if key a = KPruned then oldVal a = JBool False \<and> newVal a = JBool True
      else (case object a of
              ONone \<Rightarrow> False
            | OEdge q \<Rightarrow> below p k q
            | ONode q \<Rightarrow> below p k q \<or> (q = p \<and> key a \<noteq> KEntered \<and> \<not> lf)))"

definition linv :: "nat list \<Rightarrow> nat \<Rightarrow> bool \<Rightarrow> LoopState \<Rightarrow> bool" where
  "linv p k lf st =
     ((\<forall>step \<in> set (lsChildActionsList st). consistent step) \<and>
      consistent (lsLastChildExitActions st) \<and>
      (\<forall>a \<in> set (lsLastChildExitActions st). loc_ok p k lf a))"

text \<open>The cursor of a queue is in range: from \<open>-1\<close> to the index of the last step.\<close>

definition cursor_ok :: "ActionListQueue \<Rightarrow> bool" where
  "cursor_ok q = (- 1 \<le> lastAction q \<and> lastAction q < int (length (actionListQueue q)))"

section \<open>Basic facts\<close>

text \<open>
  The recursive equations of the generator and of the search are unfolded by name,
  one call at a time.
\<close>

declare generateSubTree.simps [simp del] generateChildren.simps [simp del]
declare abActions.simps [simp del] abLoop.simps [simp del]

lemmas compile_simps =
  generateSubTree.simps generateChildren.simps abActions.simps abLoop.simps
  generateABTreeRootNode_def alphaBeta_def createTree_def Let_def
  searchStep_def pruneStep_def newActionListQueue_def pushActionList_def
  extendActionList_def mkAction_def
  fl_def binade_def pow2_def round_even_def compute_bitlen

lemma js_compare_num [simp]:
  "js_lt (JNum x) (JNum y) = (x < y)"
  "js_gt (JNum x) (JNum y) = (y < x)"
  "js_le (JNum x) (JNum y) = (x \<le> y)"
  by (simp_all add: js_lt_def js_gt_def js_le_def)

lemma jsnum_less_simps [simp]:
  "NegInf < Fin x" "Fin x < PosInf" "NegInf < PosInf"
  "\<not> n < NegInf" "\<not> PosInf < n" "Fin x < Fin y \<longleftrightarrow> x < y"
  by (cases n; auto simp: less_jsnum_def)+

lemma jsnum_le_simps [simp]:
  "n \<le> PosInf" "Fin x \<le> Fin y \<longleftrightarrow> x \<le> y"
  "PosInf \<le> n \<longleftrightarrow> n = PosInf" "n \<le> NegInf \<longleftrightarrow> n = NegInf"
  by (cases n; simp)+

section \<open>The action log\<close>

text \<open>
  C6. While \<open>inAction\<close> is true, \<open>pushActionList\<close> and \<open>extendActionList\<close> return false
  and leave the queue, its \<open>length\<close> and its steps as they were; while it is false they
  append the step or steps, add their number to \<open>length\<close>, and return true.
\<close>

theorem C6_push_frozen_in_action:
  "(inAction q \<longrightarrow>
      pushActionList actionList q = (False, q) \<and> extendActionList actionLists q = (False, q)) \<and>
   (\<not> inAction q \<longrightarrow>
      fst (pushActionList actionList q) \<and>
      actionListQueue (snd (pushActionList actionList q)) = actionListQueue q @ [actionList] \<and>
      qlength (snd (pushActionList actionList q)) = qlength q + 1 \<and>
      fst (extendActionList actionLists q) \<and>
      actionListQueue (snd (extendActionList actionLists q)) = actionListQueue q @ actionLists \<and>
      qlength (snd (extendActionList actionLists q)) = qlength q + int (length actionLists))"
  by (simp add: pushActionList_def extendActionList_def)

theorem C6_push_frozen_in_action_witness:
  "pushActionList [mkAction ONone KEntered (JBool False) (JBool True)]
       (newActionListQueue\<lparr>inAction := True\<rparr>) = (False, newActionListQueue\<lparr>inAction := True\<rparr>) \<and>
   qlength (snd (extendActionList [[], []] newActionListQueue)) = 2 \<and>
   length (actionListQueue (snd (pushActionList [] newActionListQueue))) = 1"
proof -
  have a: "inAction (newActionListQueue\<lparr>inAction := True\<rparr>)"
    by simp
  have b: "\<not> inAction newActionListQueue"
    by (simp add: newActionListQueue_def)
  from a C6_push_frozen_in_action[of "newActionListQueue\<lparr>inAction := True\<rparr>"
      "[mkAction ONone KEntered (JBool False) (JBool True)]" "[]"]
  have 1: "pushActionList [mkAction ONone KEntered (JBool False) (JBool True)]
       (newActionListQueue\<lparr>inAction := True\<rparr>) = (False, newActionListQueue\<lparr>inAction := True\<rparr>)"
    by blast
  from b C6_push_frozen_in_action[of newActionListQueue "[]" "[[], []]"]
  have 2: "qlength (snd (extendActionList [[], []] newActionListQueue)) = qlength newActionListQueue + int (length [[], []::Action list])"
    and 3: "actionListQueue (snd (pushActionList [] newActionListQueue)) = actionListQueue newActionListQueue @ [[]]"
    by blast+
  from 1 2 3 show ?thesis
    by (simp add: newActionListQueue_def)
qed

lemma stepForward_ok:
  assumes "cursor_ok q"
  shows "\<exists>r q' t'. stepForward q t = Inr (r, q', t') \<and> cursor_ok q' \<and> inAction q' = inAction q"
  using assms by (auto simp: stepForward_def step_at_def cursor_ok_def Let_def)

lemma stepBackward_ok:
  assumes "cursor_ok q"
  shows "\<exists>r q' t'. stepBackward q t = Inr (r, q', t') \<and> cursor_ok q' \<and> inAction q' = inAction q"
  using assms by (auto simp: stepBackward_def step_at_def cursor_ok_def Let_def)

lemma forwardLoop_ok:
  "cursor_ok q \<Longrightarrow> \<exists>q' t'. forwardLoop q t = Inr (q', t') \<and> cursor_ok q'"
proof (induction q t rule: forwardLoop.induct)
  case (1 q t)
  from stepForward_ok[OF "1.prems"] obtain r q1 t1 where
    s: "stepForward q t = Inr (r, q1, t1)" and ok: "cursor_ok q1"
    by blast
  show ?case
  proof (cases r)
    case True
    with "1.IH"[OF s refl refl _ ok] s show ?thesis
      by (simp add: forwardLoop.simps[of q t])
  next
    case False
    with s ok show ?thesis
      by (simp add: forwardLoop.simps[of q t])
  qed
qed

lemma backwardLoop_ok:
  "cursor_ok q \<Longrightarrow> \<exists>q' t'. backwardLoop q t = Inr (q', t') \<and> cursor_ok q'"
proof (induction q t rule: backwardLoop.induct)
  case (1 q t)
  from stepBackward_ok[OF "1.prems"] obtain r q1 t1 where
    s: "stepBackward q t = Inr (r, q1, t1)" and ok: "cursor_ok q1"
    by blast
  show ?case
  proof (cases r)
    case True
    with "1.IH"[OF s refl refl _ ok] s show ?thesis
      by (simp add: backwardLoop.simps[of q t])
  next
    case False
    with s ok show ?thesis
      by (simp add: backwardLoop.simps[of q t])
  qed
qed

lemma call_ok:
  assumes "cursor_ok q"
  shows "\<exists>q' t'. call c (q, t) = Inr (q', t') \<and> cursor_ok q'"
proof (cases c)
  case StepForward
  with stepForward_ok[OF assms, of t] show ?thesis by auto
next
  case StepBackward
  with stepBackward_ok[OF assms, of t] show ?thesis by auto
next
  case GoToEnd
  with forwardLoop_ok[OF assms, of t] assms show ?thesis by (auto simp: goToEnd_def)
next
  case GoToBeginning
  with backwardLoop_ok[OF assms, of t] assms show ?thesis by (auto simp: goToBeginning_def)
qed (use assms in \<open>auto simp: cursor_ok_def pushActionList_def extendActionList_def\<close>)

lemma calls_ok:
  "cursor_ok q \<Longrightarrow> \<exists>q' t'. calls cs (q, t) = Inr (q', t') \<and> cursor_ok q'"
proof (induction cs arbitrary: q t)
  case Nil
  then show ?case by simp
next
  case (Cons c cs)
  from call_ok[OF Cons.prems, of c t] obtain q1 t1 where
    "call c (q, t) = Inr (q1, t1)" "cursor_ok q1" by blast
  with Cons.IH[of q1 t1] show ?case by simp
qed

text \<open>
  C7. After any sequence of calls on a fresh queue (pushes, steps, drains, writes of
  \<open>inAction\<close>), on an empty log too, no call has read a step outside the array (the
  sequence ends in a state, not in the TypeError), the cursor lies between \<open>-1\<close> and the
  last index, and from that state: \<open>stepForward\<close> returns false and changes nothing
  when \<open>inAction\<close> is false or the cursor is at the last step, and otherwise moves the
  cursor up by one, applies the actions of the step now under the cursor in their
  recorded order and returns true; \<open>stepBackward\<close> returns false and changes nothing
  when \<open>inAction\<close> is false or the cursor is \<open>-1\<close>, and otherwise reverses the actions of
  the step under the cursor, moves the cursor down by one and returns true.
\<close>

theorem C7_stepping_in_bounds:
  "\<exists>q t. calls cs (newActionListQueue, t0) = Inr (q, t) \<and>
     stepForward q t =
       (if \<not> inAction q \<or> lastAction q = int (length (actionListQueue q)) - 1 then Inr (False, q, t)
        else Inr (True, q\<lparr>lastAction := lastAction q + 1\<rparr>,
                  fold apply_action (actionListQueue q ! nat (lastAction q + 1)) t)) \<and>
     stepBackward q t =
       (if \<not> inAction q \<or> lastAction q = - 1 then Inr (False, q, t)
        else Inr (True, q\<lparr>lastAction := lastAction q - 1\<rparr>,
                  fold reverse_action (actionListQueue q ! nat (lastAction q)) t)) \<and>
     - 1 \<le> lastAction q \<and> lastAction q < int (length (actionListQueue q))"
proof -
  have "cursor_ok newActionListQueue"
    by (simp add: cursor_ok_def newActionListQueue_def)
  from calls_ok[OF this, of cs t0] obtain q t where
    c: "calls cs (newActionListQueue, t0) = Inr (q, t)" and ok: "cursor_ok q"
    by blast
  from ok have "stepForward q t =
       (if \<not> inAction q \<or> lastAction q = int (length (actionListQueue q)) - 1 then Inr (False, q, t)
        else Inr (True, q\<lparr>lastAction := lastAction q + 1\<rparr>,
                  fold apply_action (actionListQueue q ! nat (lastAction q + 1)) t))"
    by (auto simp: stepForward_def step_at_def cursor_ok_def Let_def)
  moreover from ok have "stepBackward q t =
       (if \<not> inAction q \<or> lastAction q = - 1 then Inr (False, q, t)
        else Inr (True, q\<lparr>lastAction := lastAction q - 1\<rparr>,
                  fold reverse_action (actionListQueue q ! nat (lastAction q)) t))"
    by (auto simp: stepBackward_def step_at_def cursor_ok_def Let_def)
  ultimately show ?thesis
    using c ok by (auto simp: cursor_ok_def)
qed

theorem C7_stepping_in_bounds_witness:
  "\<forall>t0. \<exists>q t. calls [SetInAction True, StepBackward, StepForward, SetInAction False,
                      PushActionList [], SetInAction True, StepForward, GoToEnd]
                 (newActionListQueue, t0) = Inr (q, t) \<and>
     lastAction q = 0 \<and> t = t0 \<and>
     stepForward q t = Inr (False, q, t) \<and>
     stepBackward q t = Inr (True, q\<lparr>lastAction := - 1\<rparr>, t)"
proof
  fix t0
  let ?cs = "[SetInAction True, StepBackward, StepForward, SetInAction False,
              PushActionList [], SetInAction True, StepForward, GoToEnd]"
  let ?q = "\<lparr>inAction = True, lastAction = 0, actionListQueue = [[]], qlength = 1\<rparr>"
  have run: "calls ?cs (newActionListQueue, t0) = Inr (?q, t0)"
    by (simp add: newActionListQueue_def stepForward_def stepBackward_def step_at_def
          pushActionList_def goToEnd_def forwardLoop.simps Let_def)
  from C7_stepping_in_bounds[of ?cs t0] run
  have "stepForward ?q t0 =
       (if \<not> inAction ?q \<or> lastAction ?q = int (length (actionListQueue ?q)) - 1 then Inr (False, ?q, t0)
        else Inr (True, ?q\<lparr>lastAction := lastAction ?q + 1\<rparr>,
                  fold apply_action (actionListQueue ?q ! nat (lastAction ?q + 1)) t0))"
    and "stepBackward ?q t0 =
       (if \<not> inAction ?q \<or> lastAction ?q = - 1 then Inr (False, ?q, t0)
        else Inr (True, ?q\<lparr>lastAction := lastAction ?q - 1\<rparr>,
                  fold reverse_action (actionListQueue ?q ! nat (lastAction ?q)) t0))"
    by auto
  then have "stepForward ?q t0 = Inr (False, ?q, t0)"
    and "stepBackward ?q t0 = Inr (True, ?q\<lparr>lastAction := - 1\<rparr>, t0)"
    by simp_all
  with run show "\<exists>q t. calls ?cs (newActionListQueue, t0) = Inr (q, t) \<and>
     lastAction q = 0 \<and> t = t0 \<and>
     stepForward q t = Inr (False, q, t) \<and>
     stepBackward q t = Inr (True, q\<lparr>lastAction := - 1\<rparr>, t)"
    by simp
qed

section \<open>The worked scenario, evaluated\<close>

lemma scenario_compiles:
  "map_sum id (\<lambda>r. rootShadowValue (snd r)) (alphaBeta scenario_tree) = Inr (JNum (Fin 3))"
  by (simp add: scenario_tree_def scenario_rnd_def rootShadowValue_def compile_simps)

text \<open>
  C5, as stated, fails. On the tree of depth 3 and branching factor 2 under a maximizing
  root with the leaves 3, 5, 2, 9, compiling the search does not leave 5 as the shadow
  value of the root.
\<close>

theorem C5_root_value_is_not_5:
  "map_sum id (\<lambda>r. rootShadowValue (snd r)) (alphaBeta scenario_tree) \<noteq> Inr (JNum (Fin 5))"
  using scenario_compiles by simp

text \<open>
  C5, amended. On that tree the nodes of depth 2 are minimizers, and compiling the
  search leaves 3 as the shadow value of the root: the maximum of \<open>min 3 5 = 3\<close> and
  \<open>min 2 9 = 2\<close>.
\<close>

theorem C5_root_value_is_3:
  "map_sum id (\<lambda>r. rootShadowValue (snd r)) (alphaBeta scenario_tree) = Inr (JNum (Fin 3))"
  using scenario_compiles by simp

section \<open>The generator\<close>

lemma is_number_of_number [simp]: "is_number (of_number x)"
  by (cases x) simp_all

lemma generate_ok:
  shows "depth0 \<le> maxDepth \<Longrightarrow>
      \<exists>t s1. generateSubTree rnd maxDepth minVal maxVal parentNode nodeType0 depth0 bFac s = Some (t, s1) \<and>
        gen_ok maxDepth bFac (parentNode = None) nodeType0 depth0 t"
    and "depth0 < maxDepth \<Longrightarrow>
      \<exists>cs s1. generateChildren rnd maxDepth minVal maxVal pid nodeType0 depth0 bFac k s = Some (cs, s1) \<and>
        length cs = bFac - k \<and>
        (\<forall>c \<in> set cs. gen_ok maxDepth bFac False (oppositeNodeType nodeType0) (depth0 + 1) c)"
proof (induction rnd maxDepth minVal maxVal parentNode nodeType0 depth0 bFac s
         and rnd maxDepth minVal maxVal pid nodeType0 depth0 bFac k s
       rule: generateSubTree_generateChildren.induct)
  case (1 rnd maxDepth minVal maxVal parentNode nodeType0 depth0 bFac s)
  show ?case
  proof (cases "depth0 = maxDepth")
    case True
    then show ?thesis
      by (cases parentNode) (simp_all add: fresh_fields_def generateSubTree.simps)
  next
    case False
    with "1.prems" have lt: "depth0 < maxDepth" by simp
    from "1.IH"[OF refl refl False _ lt] lt obtain cs s2 where
      g: "generateChildren rnd maxDepth minVal maxVal (globalNodeId s + 1) nodeType0 depth0 bFac 0
            (s\<lparr>globalNodeId := globalNodeId s + 1\<rparr>) = Some (cs, s2)"
      and l: "length cs = bFac"
      and ok: "\<forall>c \<in> set cs. gen_ok maxDepth bFac False (oppositeNodeType nodeType0) (depth0 + 1) c"
      by auto
    with False lt show ?thesis
      by (cases parentNode)
         (simp_all add: fresh_fields_def generateSubTree.simps[of _ maxDepth _ _ _ _ depth0])
  qed
next
  case (2 rnd maxDepth minVal maxVal pid nodeType0 depth0 bFac k s)
  show ?case
  proof (cases "k < bFac")
    case True
    from "2.prems" have le: "depth0 + 1 \<le> maxDepth" by simp
    from "2.IH"(1)[OF True le] obtain c s1 where
      c: "generateSubTree rnd maxDepth minVal maxVal (Some pid) (oppositeNodeType nodeType0)
            (depth0 + 1) bFac s = Some (c, s1)"
      and cok: "gen_ok maxDepth bFac False (oppositeNodeType nodeType0) (depth0 + 1) c"
      by auto
    from "2.IH"(2)[OF True c refl "2.prems"] obtain cs s2 where
      r: "generateChildren rnd maxDepth minVal maxVal pid nodeType0 depth0 bFac (k + 1) s1 = Some (cs, s2)"
      and l: "length cs = bFac - (k + 1)"
      and ok: "\<forall>c \<in> set cs. gen_ok maxDepth bFac False (oppositeNodeType nodeType0) (depth0 + 1) c"
      by auto
    from True c cok r l ok show ?thesis
      by (auto simp: generateChildren.simps[of _ _ _ _ _ _ _ _ k])
  next
    case False
    then show ?thesis by (simp add: generateChildren.simps[of _ _ _ _ _ _ _ _ k])
  qed
qed

text \<open>
  C9, as stated, fails: the edge the generator gives a child has no \<open>entered\<close> field
  at all. On the tree of the worked scenario the \<open>entered\<close> flag of the edge into the
  first child of the root is not the boolean false.
\<close>

theorem C9_edge_entered_is_not_false:
  "map_option (read_field (OEdge [0]) KEntered) (rootNode scenario_tree) \<noteq> Some (Some (JBool False))"
  by (simp add: scenario_tree_def scenario_rnd_def compile_simps)

text \<open>
  C9, amended. For every root kind, every declared depth of at least 1 and every
  branching factor the generator returns a tree in which: the kinds alternate from the
  root kind down (each interior node has the kind opposite to its parent's, and the
  root has the root kind, unless it is itself at the declared depth); every node at
  the declared depth is a leaf whose value is a number; every node above has
  exactly \<open>branchingFactor\<close> children; every node but the root has an edge to its parent
  whose \<open>pruned\<close> flag is false and whose \<open>entered\<close> flag is unset (\<open>undefined\<close>, not
  false); and no search field is set.
\<close>

theorem C9_generator_postcondition:
  "1 \<le> maxDepth \<Longrightarrow>
     \<exists>t s1. generateABTreeRootNode rnd treeType0 maxDepth bFac minVal maxVal s = Some (t, s1) \<and>
       gen_ok maxDepth bFac True treeType0 1 t"
  using generate_ok(1)[of 1 maxDepth rnd minVal maxVal None treeType0 bFac s]
  by (simp add: generateABTreeRootNode_def)

theorem C9_generator_postcondition_witness:
  "\<exists>t s1. generateABTreeRootNode scenario_rnd maxNode 3 2 (Some (Fin (- 20))) (Some (Fin 20))
             \<lparr>globalNodeId = 0, randomCalls = 0\<rparr> = Some (t, s1) \<and>
     gen_ok 3 2 True maxNode 1 t"
  using C9_generator_postcondition[of 3 scenario_rnd maxNode 2 "Some (Fin (- 20))" "Some (Fin 20)"
          "\<lparr>globalNodeId = 0, randomCalls = 0\<rparr>"]
  by simp

section \<open>Compilation writes shadow fields only\<close>

lemma pruneInner_frame:
  shows "withoutShadow (snd (pruneInner bFac p n)) = withoutShadow n"
    and "map withoutShadow (snd (pruneChildren bFac p k cs)) = map withoutShadow cs"
proof (induction bFac p n and bFac p k cs rule: pruneInner_pruneChildren.induct)
  case (1 bFac p nf cs)
  have "map withoutShadow (snd (pruneChildren bFac p 0 cs)) = map withoutShadow cs"
    using "1.IH" by (cases "edgeToParent nf") (metis prod.collapse)+
  then show ?case
    by (cases "edgeToParent nf") (auto simp: withoutShadowF_def split: prod.splits)
next
  case (2 bFac p k)
  then show ?case by simp
next
  case (3 bFac p k c rest)
  then show ?case by (auto split: prod.splits)
qed

lemma searchStep_frame: "withoutShadowF (lsNode (searchStep m p res st)) = withoutShadowF (lsNode st)"
  by (simp add: searchStep_def Let_def withoutShadowF_def)

lemma pruneStep_frame: "withoutShadowF (lsNode (pruneStep p acts st)) = withoutShadowF (lsNode st)"
  by (simp add: pruneStep_def withoutShadowF_def)

lemma abLoop_unfold:
  "abLoop bFac p isMaxNode k rem st = Inr (st1, rem1) \<Longrightarrow>
     (\<not> k < bFac \<and> st1 = st \<and> rem1 = rem) \<or>
     (k < bFac \<and> lsPruneRest st \<and> rem = [] \<and>
        abLoop bFac p isMaxNode (k + 1) [] (pruneStep p [] st) = Inr (st1, rem1)) \<or>
     (k < bFac \<and> lsPruneRest st \<and>
        (\<exists>c rest acts c1 rest1. rem = c # rest \<and> pruneInner bFac (p @ [k]) c = (acts, c1) \<and>
           abLoop bFac p isMaxNode (k + 1) rest (pruneStep p acts st) = Inr (st1, rest1) \<and>
           rem1 = c1 # rest1)) \<or>
     (k < bFac \<and> \<not> lsPruneRest st \<and>
        (\<exists>c rest res c1 rest1. rem = c # rest \<and>
           abActions bFac (p @ [k]) c (lsA st) (lsB st) (\<not> isMaxNode) = Inr (res, c1) \<and>
           abLoop bFac p isMaxNode (k + 1) rest (searchStep isMaxNode p res st) = Inr (st1, rest1) \<and>
           rem1 = c1 # rest1))"
  by (subst (asm) abLoop.simps) (auto split: if_splits list.splits sum.splits prod.splits)


lemma abActions_unfold:
  "abActions bFac p (TreeNode nf cs) a b isMaxNode = Inr (res, n1) \<Longrightarrow>
     (nodeType nf = leafNode \<and> n1 = TreeNode nf cs \<and> returnVal res = nodeValue nf \<and>
        childActionsList res = []) \<or>
     (nodeType nf \<noteq> leafNode \<and>
        (\<exists>st cs1. abLoop bFac p isMaxNode 0 cs
            \<lparr>lsA = a, lsB = b, lsCurVal = JNum (if isMaxNode then NegInf else PosInf),
             lsPruneRest = False, lsLastChildExitActions = [], lsChildActionsList = [],
             lsNode = nf\<lparr>shadowAlpha := a, shadowBeta := b\<rparr>\<rparr> = Inr (st, cs1) \<and>
           n1 = TreeNode (lsNode st) cs1 \<and> returnVal res = lsCurVal st \<and>
           childActionsList res = lsChildActionsList st @ [lsLastChildExitActions st]))"
  by (subst (asm) abActions.simps) (auto simp: Let_def split: if_splits sum.splits)

lemma abActions_frame:
  shows "abActions bFac p n a b isMaxNode = Inr (res, n1) \<Longrightarrow> withoutShadow n1 = withoutShadow n"
    and "abLoop bFac p isMaxNode k rem st = Inr (st1, rem1) \<Longrightarrow>
           map withoutShadow rem1 = map withoutShadow rem \<and>
           withoutShadowF (lsNode st1) = withoutShadowF (lsNode st)"
proof (induction bFac p n a b isMaxNode and bFac p isMaxNode k rem st
       arbitrary: res n1 and st1 rem1 rule: abActions_abLoop.induct)
  case (1 bFac p nf cs a b isMaxNode)
  from abActions_unfold[OF "1.prems"] show ?case
  proof (elim disjE conjE exE)
    assume "n1 = TreeNode nf cs"
    then show ?thesis by simp
  next
    fix st cs1
    assume nl: "nodeType nf \<noteq> leafNode"
      and l: "abLoop bFac p isMaxNode 0 cs
            \<lparr>lsA = a, lsB = b, lsCurVal = JNum (if isMaxNode then NegInf else PosInf),
             lsPruneRest = False, lsLastChildExitActions = [], lsChildActionsList = [],
             lsNode = nf\<lparr>shadowAlpha := a, shadowBeta := b\<rparr>\<rparr> = Inr (st, cs1)"
      and n1: "n1 = TreeNode (lsNode st) cs1"
    from "1.IH"[OF refl refl nl l] n1 show ?thesis
      by (simp add: withoutShadowF_def)
  qed
next
  case (2 bFac p isMaxNode k rem st)
  from abLoop_unfold[OF "2.prems"] show ?case
  proof (elim disjE conjE exE)
    assume "st1 = st" "rem1 = rem"
    then show ?thesis by simp
  next
    assume kb: "k < bFac" and pr: "lsPruneRest st" and e: "rem = []"
      and l: "abLoop bFac p isMaxNode (k + 1) [] (pruneStep p [] st) = Inr (st1, rem1)"
    from "2.IH"(1)[OF kb pr e l] e show ?thesis
      by (simp add: pruneStep_frame)
  next
    fix c rest acts c1 rest1
    assume kb: "k < bFac" and pr: "lsPruneRest st" and e: "rem = c # rest"
      and pi: "pruneInner bFac (p @ [k]) c = (acts, c1)"
      and l: "abLoop bFac p isMaxNode (k + 1) rest (pruneStep p acts st) = Inr (st1, rest1)"
      and r: "rem1 = c1 # rest1"
    from pruneInner_frame(1)[of bFac "p @ [k]" c] pi have "withoutShadow c1 = withoutShadow c"
      by simp
    with "2.IH"(2)[OF kb pr e pi[symmetric] l] r e show ?thesis
      by (simp add: pruneStep_frame)
  next
    fix c rest res c1 rest1
    assume kb: "k < bFac" and npr: "\<not> lsPruneRest st" and e: "rem = c # rest"
      and a: "abActions bFac (p @ [k]) c (lsA st) (lsB st) (\<not> isMaxNode) = Inr (res, c1)"
      and l: "abLoop bFac p isMaxNode (k + 1) rest (searchStep isMaxNode p res st) = Inr (st1, rest1)"
      and r: "rem1 = c1 # rest1"
    from "2.IH"(3)[OF kb npr e a] "2.IH"(4)[OF kb npr e a refl l] r e
    show ?thesis
      by (simp add: searchStep_frame)
  qed
qed

lemma node_at_withoutShadow: "node_at p (withoutShadow t) = map_option withoutShadow (node_at p t)"
proof (induction p arbitrary: t)
  case Nil
  then show ?case by simp
next
  case (Cons k p)
  then show ?case by (cases t) simp
qed

lemma read_field_withoutShadow: "read_field ob k (withoutShadow t) = read_field ob k t"
proof (cases ob)
  case (ONode p)
  show ?thesis
  proof (cases "node_at p t")
    case None
    with ONode show ?thesis by (simp add: node_at_withoutShadow)
  next
    case (Some n)
    obtain nf cs where "n = TreeNode nf cs" by (cases n)
    with ONode Some show ?thesis
      by (cases k) (simp_all add: node_at_withoutShadow withoutShadowF_def)
  qed
next
  case (OEdge p)
  show ?thesis
  proof (cases "node_at p t")
    case None
    with OEdge show ?thesis by (simp add: node_at_withoutShadow)
  next
    case (Some n)
    obtain nf cs where "n = TreeNode nf cs" by (cases n)
    with OEdge Some show ?thesis
      by (cases k; cases "edgeToParent nf") (simp_all add: node_at_withoutShadow withoutShadowF_def)
  qed
next
  case ONone
  then show ?thesis by simp
qed

text \<open>
  C10. Whatever the tree, when \<open>alphaBeta\<close> returns, it returns the tree it was given
  up to the hidden shadow fields: apart from \<open>__value\<close>, \<open>__alpha\<close>, \<open>__beta\<close> and
  \<open>__pruned\<close> nothing of any node or edge has changed, so every visible field
  (\<open>value\<close>, \<open>alpha\<close>, \<open>beta\<close>, \<open>entered\<close>, \<open>pruned\<close>) of every node and edge reads as
  before, and the other fields of the tree record are the same.
\<close>

theorem C10_compile_keeps_visible_state:
  "alphaBeta tree = Inr (q, tree1) \<Longrightarrow>
     (\<forall>ob k. visibleField tree1 ob k = visibleField tree ob k) \<and>
     map_option withoutShadow (rootNode tree1) = map_option withoutShadow (rootNode tree) \<and>
     tree1 = tree\<lparr>rootNode := rootNode tree1\<rparr>"
proof (cases "rootNode tree")
  case None
  assume "alphaBeta tree = Inr (q, tree1)"
  with None show ?thesis
    by (auto simp: alphaBeta_def visibleField_def)
next
  case (Some rootN)
  assume "alphaBeta tree = Inr (q, tree1)"
  with Some obtain res rootN1 where
    a: "abActions (branchingFactor tree) [] rootN (JNum NegInf) (JNum PosInf) (treeType tree = maxNode)
          = Inr (res, rootN1)"
    and t: "tree1 = tree\<lparr>rootNode := Some rootN1\<rparr>"
    by (auto simp: alphaBeta_def split: sum.splits)
  from abActions_frame(1)[OF a] have w: "withoutShadow rootN1 = withoutShadow rootN" .
  have "read_field ob k rootN1 = read_field ob k rootN" for ob k
    using read_field_withoutShadow[of ob k rootN1] read_field_withoutShadow[of ob k rootN] w
    by simp
  with Some t w show ?thesis
    by (simp add: visibleField_def)
qed

theorem C10_compile_keeps_visible_state_witness:
  "\<exists>q tree1. alphaBeta scenario_tree = Inr (q, tree1) \<and>
     rootShadowValue tree1 = JNum (Fin 3) \<and>
     (\<forall>ob k. visibleField tree1 ob k = visibleField scenario_tree ob k)"
proof -
  from scenario_compiles obtain q tree1 where
    c: "alphaBeta scenario_tree = Inr (q, tree1)" and v: "rootShadowValue tree1 = JNum (Fin 3)"
    by (cases "alphaBeta scenario_tree") auto
  from C10_compile_keeps_visible_state[OF c] c v show ?thesis
    by blast
qed

section \<open>Verification\<close>

text \<open>
  C4: the code misses what the claim says. After the search was compiled on the
  scenario, the edge into the rightmost leaf (the leaf 9) is shadow-pruned. A learner
  who sets the three interior values right and marks no edge as pruned leaves that
  edge's visible \<open>pruned\<close> at false, different from its shadow flag, and \<open>checkAnswer\<close>
  still returns true: \<open>checkSubTree\<close> returns on a leaf before it looks at the edge
  into it.
\<close>

theorem C4_checkAnswer_skips_leaf_edges:
  "checkAnswer scenario_answer \<and>
   map_option (edgeShadowAt [1, 1]) scenario_answer = Some (Some (JBool True)) \<and>
   map_option (read_field (OEdge [1, 1]) KPruned) scenario_answer = Some (Some (JBool False))"
  by (simp add: scenario_answer_def scenario_compiled_def scenario_tree_def scenario_rnd_def
        checkAnswer_def edgeShadowAt_def js_strict_ne_def compile_simps)

section \<open>The search returns the minimax value\<close>

lemma max_step_prune:
  "cv \<le> al \<Longrightarrow> al < be \<Longrightarrow> fs_bounds al be r mc \<Longrightarrow> be \<le> max al r \<Longrightarrow>
     loopspec True al be cv (max cv r) (max mc Mr)"
  by (auto simp: fs_bounds_def loopspec_def max_def split: if_splits)

lemma max_step_go:
  "cv \<le> al \<Longrightarrow> al < be \<Longrightarrow> fs_bounds al be r mc \<Longrightarrow> max al r < be \<Longrightarrow>
     loopspec True (max al r) be (max cv r) cv1 Mr \<Longrightarrow> loopspec True al be cv cv1 (max mc Mr)"
  by (auto simp: fs_bounds_def loopspec_def max_def split: if_splits)

lemma min_step_prune:
  "be \<le> cv \<Longrightarrow> al < be \<Longrightarrow> fs_bounds al be r mc \<Longrightarrow> min be r \<le> al \<Longrightarrow>
     loopspec False al be cv (min cv r) (min mc Mr)"
  by (auto simp: fs_bounds_def loopspec_def min_def split: if_splits)

lemma min_step_go:
  "be \<le> cv \<Longrightarrow> al < be \<Longrightarrow> fs_bounds al be r mc \<Longrightarrow> al < min be r \<Longrightarrow>
     loopspec False al (min be r) (min cv r) cv1 Mr \<Longrightarrow> loopspec False al be cv cv1 (min mc Mr)"
  by (auto simp: fs_bounds_def loopspec_def min_def split: if_splits)

lemma loopspec_end:
  "(if isMax then cv \<le> al else be \<le> cv) \<Longrightarrow> al < be \<Longrightarrow>
     loopspec isMax al be cv cv (if isMax then NegInf else PosInf)"
  by (auto simp: loopspec_def)


lemma searchStep_max:
  assumes "returnVal res = JNum r" "lsA st = JNum al" "lsB st = JNum be" "lsCurVal st = JNum cv"
  shows "lsA (searchStep True p res st) = JNum (max al r)"
    and "lsB (searchStep True p res st) = JNum be"
    and "lsCurVal (searchStep True p res st) = JNum (max cv r)"
    and "lsPruneRest (searchStep True p res st) = (be \<le> max al r \<or> lsPruneRest st)"
    and "sv_inv True st \<Longrightarrow> sv_inv True (searchStep True p res st)"
  using assms by (auto simp: searchStep_def Let_def max_def sv_inv_def)

lemma searchStep_min:
  assumes "returnVal res = JNum r" "lsA st = JNum al" "lsB st = JNum be" "lsCurVal st = JNum cv"
  shows "lsA (searchStep False p res st) = JNum al"
    and "lsB (searchStep False p res st) = JNum (min be r)"
    and "lsCurVal (searchStep False p res st) = JNum (min cv r)"
    and "lsPruneRest (searchStep False p res st) = (min be r \<le> al \<or> lsPruneRest st)"
    and "sv_inv False st \<Longrightarrow> sv_inv False (searchStep False p res st)"
  using assms by (auto simp: searchStep_def Let_def min_def sv_inv_def)

lemma pruneStep_keeps [simp]:
  "lsA (pruneStep p acts st) = lsA st" "lsB (pruneStep p acts st) = lsB st"
  "lsCurVal (pruneStep p acts st) = lsCurVal st" "lsPruneRest (pruneStep p acts st) = lsPruneRest st"
  "sv_inv m (pruneStep p acts st) = sv_inv m st"
  by (simp_all add: pruneStep_def sv_inv_def)

lemma search_ok_minimax:
  "search_ok bFac isRoot kind h n \<Longrightarrow> kind \<in> {maxNode, minNode} \<Longrightarrow> \<exists>m. minimax n = Some m"
  "(\<forall>c \<in> set cs. search_ok bFac False kind h c) \<Longrightarrow> kind \<in> {maxNode, minNode} \<Longrightarrow> \<exists>m. best isMax cs = Some m"
proof (induction n and isMax cs arbitrary: isRoot kind h and kind h rule: minimax_best.induct)
  case (1 nf cs)
  show ?case
  proof (cases h)
    case 0
    with "1.prems" show ?thesis
      by (cases "nodeValue nf" rule: is_finite_num.cases) auto
  next
    case (Suc h1)
    with "1.prems" have k: "nodeType nf = kind"
      and c: "\<forall>c \<in> set cs. search_ok bFac False (oppositeNodeType kind) h1 c"
      by auto
    from "1.prems"(2) have o: "oppositeNodeType kind \<in> {maxNode, minNode}" by auto
    from "1.prems"(2) show ?thesis
    proof
      assume "kind = maxNode"
      with k "1.IH"(1)[OF _ c o] show ?thesis by simp
    next
      assume "kind \<in> {minNode}"
      with k "1.IH"(2)[OF _ c o] show ?thesis by simp
    qed
  qed
next
  case (2 isMax)
  then show ?case by simp
next
  case (3 isMax c cs)
  from "3.prems" "3.IH"(1)[of False kind h] obtain x where "minimax c = Some x" by auto
  moreover from "3.prems" "3.IH"(2)[of kind h] obtain y where "best isMax cs = Some y" by auto
  ultimately show ?case by simp
qed


lemma is_fin_max: "is_fin r \<Longrightarrow> cv \<noteq> PosInf \<Longrightarrow> is_fin (max cv r)"
  by (cases cv; cases r) (auto simp: max_def)

lemma is_fin_min: "is_fin r \<Longrightarrow> cv \<noteq> NegInf \<Longrightarrow> is_fin (min cv r)"
  by (cases cv; cases r) (auto simp: min_def)

lemma abActions_sound:
  shows "search_ok bFac isRoot kind h n \<Longrightarrow> kind \<in> {maxNode, minNode} \<Longrightarrow>
         isMaxNode = (kind = maxNode) \<Longrightarrow> 0 < bFac \<Longrightarrow> a = JNum x \<Longrightarrow> b = JNum y \<Longrightarrow> x < y \<Longrightarrow>
         \<exists>res n1 v. abActions bFac p n a b isMaxNode = Inr (res, n1) \<and> returnVal res = JNum v \<and>
           is_fin v \<and> (\<forall>m. minimax n = Some m \<longrightarrow> fs_bounds x y v m) \<and>
           (0 < h \<longrightarrow> shadowValue (nfields n1) = JNum v)"
    and "(\<forall>c \<in> set rem. search_ok bFac False (oppositeNodeType kind) h c) \<Longrightarrow>
         kind \<in> {maxNode, minNode} \<Longrightarrow> isMaxNode = (kind = maxNode) \<Longrightarrow> 0 < bFac \<Longrightarrow>
         k + length rem = bFac \<Longrightarrow>
         lsA st = JNum al \<Longrightarrow> lsB st = JNum be \<Longrightarrow> lsCurVal st = JNum cv \<Longrightarrow>
         (\<not> lsPruneRest st \<longrightarrow> al < be) \<Longrightarrow> (if isMaxNode then cv \<le> al else be \<le> cv) \<Longrightarrow>
         \<exists>st1 rem1 cv1. abLoop bFac p isMaxNode k rem st = Inr (st1, rem1) \<and> lsCurVal st1 = JNum cv1 \<and>
           (lsPruneRest st \<longrightarrow> cv1 = cv) \<and>
           (\<not> lsPruneRest st \<longrightarrow> (\<forall>M. best isMaxNode rem = Some M \<longrightarrow> loopspec isMaxNode al be cv cv1 M)) \<and>
           (is_fin cv \<or> (\<not> lsPruneRest st \<and> rem \<noteq> []) \<longrightarrow> is_fin cv1) \<and>
           (sv_inv isMaxNode st \<longrightarrow> sv_inv isMaxNode st1)"
proof (induction bFac p n a b isMaxNode and bFac p isMaxNode k rem st
       arbitrary: isRoot kind h x y and kind h al be cv rule: abActions_abLoop.induct)
  case (1 bFac p nf cs a b isMaxNode)
  show ?case
  proof (cases h)
    case 0
    with "1.prems"(1) obtain r where "nodeType nf = leafNode" "nodeValue nf = JNum (Fin r)"
      by (cases "nodeValue nf" rule: is_finite_num.cases) auto
    with 0 show ?thesis
      by (auto simp: abActions.simps Let_def fs_bounds_def)
  next
    case (Suc h1)
    with "1.prems"(1,2) have nl: "nodeType nf \<noteq> leafNode" and kd: "nodeType nf = kind"
      and len: "length cs = bFac"
      and cok: "\<forall>c \<in> set cs. search_ok bFac False (oppositeNodeType kind) h1 c"
      by auto
    let ?st0 = "\<lparr>lsA = a, lsB = b, lsCurVal = JNum (if isMaxNode then NegInf else PosInf),
                 lsPruneRest = False, lsLastChildExitActions = [], lsChildActionsList = [],
                 lsNode = nf\<lparr>shadowAlpha := a, shadowBeta := b\<rparr>\<rparr>"
    have init: "if isMaxNode then (if isMaxNode then NegInf else PosInf) \<le> x
                else y \<le> (if isMaxNode then NegInf else PosInf)"
      by simp
    from "1.IH"[OF refl refl nl cok "1.prems"(2,3,4), of x y "if isMaxNode then NegInf else PosInf"]
      len "1.prems"(5,6,7) init
    obtain st1 cs1 cv1 where
      l: "abLoop bFac p isMaxNode 0 cs ?st0 = Inr (st1, cs1)"
      and cv1: "lsCurVal st1 = JNum cv1"
      and spec: "\<forall>M. best isMaxNode cs = Some M \<longrightarrow>
                   loopspec isMaxNode x y (if isMaxNode then NegInf else PosInf) cv1 M"
      and fin: "cs \<noteq> [] \<longrightarrow> is_fin cv1"
      and sv: "sv_inv isMaxNode ?st0 \<longrightarrow> sv_inv isMaxNode st1"
      by auto
    from len "1.prems"(4) have "cs \<noteq> []" by auto
    with fin have f: "is_fin cv1" by simp
    have "sv_inv isMaxNode ?st0" by (simp add: sv_inv_def)
    with sv cv1 f have shadow: "shadowValue (lsNode st1) = JNum cv1"
      by (cases cv1) (auto simp: sv_inv_def split: if_splits)
    have eq: "abActions bFac p (TreeNode nf cs) a b isMaxNode =
        Inr (\<lparr>returnVal = lsCurVal st1,
              enterActions =
                [mkAction (case edgeToParent nf of None \<Rightarrow> ONone | Some e \<Rightarrow> OEdge p) KEntered (JBool False) (JBool True),
                 mkAction (ONode p) KEntered (JBool False) (JBool True)] @
                [mkAction (ONode p) KAlpha (alpha nf) a, mkAction (ONode p) KBeta (beta nf) b],
              childActionsList = lsChildActionsList st1 @ [lsLastChildExitActions st1],
              exitActions =
                [mkAction (case edgeToParent nf of None \<Rightarrow> ONone | Some e \<Rightarrow> OEdge p) KEntered (JBool True) (JBool False),
                 mkAction (ONode p) KEntered (JBool True) (JBool False)]\<rparr>,
             TreeNode (lsNode st1) cs1)"
      using nl l by (simp add: abActions.simps Let_def)
    have "fs_bounds x y cv1 m" if "minimax (TreeNode nf cs) = Some m" for m
    proof -
      from that kd "1.prems"(2,3) have "best isMaxNode cs = Some m"
        by auto
      with spec have "loopspec isMaxNode x y (if isMaxNode then NegInf else PosInf) cv1 m"
        by simp
      then show ?thesis
        by (simp add: loopspec_def fs_bounds_def)
    qed
    with eq cv1 f shadow show ?thesis
      by simp
  qed
next
  case (2 bFac p isMaxNode k rem st)
  show ?case
  proof (cases "k < bFac")
    case False
    with "2.prems"(5) have "rem = []" by (cases rem) auto
    from False have run: "abLoop bFac p isMaxNode k rem st = Inr (st, rem)"
      by (simp add: abLoop.simps[of bFac p isMaxNode k rem st])
    have "loopspec isMaxNode al be cv cv M" if "\<not> lsPruneRest st" "best isMaxNode rem = Some M" for M
      using that \<open>rem = []\<close> "2.prems"(9,10) loopspec_end[of isMaxNode cv al be] by auto
    with run "2.prems"(8) \<open>rem = []\<close> show ?thesis
      by auto
  next
    case kb: True
    with "2.prems"(5) obtain c rest where rem: "rem = c # rest"
      by (cases rem) auto
    with "2.prems"(1) have cok: "search_ok bFac False (oppositeNodeType kind) h c"
      and rok: "\<forall>c \<in> set rest. search_ok bFac False (oppositeNodeType kind) h c"
      by auto
    from rem "2.prems"(5) have klen: "k + 1 + length rest = bFac" by simp
    show ?thesis
    proof (cases "lsPruneRest st")
      case pr: True
      obtain acts c1 where pi: "pruneInner bFac (p @ [k]) c = (acts, c1)"
        by (cases "pruneInner bFac (p @ [k]) c")
      from "2.IH"(2)[OF kb pr rem pi[symmetric] rok "2.prems"(2,3,4) klen, of al be cv]
        "2.prems"(6,7,8,10) pr
      obtain st1 rest1 cv1 where
        l: "abLoop bFac p isMaxNode (k + 1) rest (pruneStep p acts st) = Inr (st1, rest1)"
        and cv1: "lsCurVal st1 = JNum cv1" "cv1 = cv"
        and sv: "sv_inv isMaxNode st \<longrightarrow> sv_inv isMaxNode st1"
        by auto
      from kb pr rem pi l have "abLoop bFac p isMaxNode k rem st = Inr (st1, c1 # rest1)"
        by (simp add: abLoop.simps[of bFac p isMaxNode k])
      with cv1 sv pr show ?thesis
        by auto
    next
      case npr: False
      with "2.prems"(9) have albe: "al < be" by simp
      from "2.prems"(2) have ok: "oppositeNodeType kind \<in> {maxNode, minNode}" by auto
      from "2.prems"(2,3) have om: "(\<not> isMaxNode) = (oppositeNodeType kind = maxNode)" by auto
      from "2.IH"(3)[OF kb npr rem cok ok om "2.prems"(4,6,7) albe]
      obtain res c1 r where
        a: "abActions bFac (p @ [k]) c (lsA st) (lsB st) (\<not> isMaxNode) = Inr (res, c1)"
        and r: "returnVal res = JNum r" and fr: "is_fin r"
        and bd: "\<forall>m. minimax c = Some m \<longrightarrow> fs_bounds al be r m"
        by auto
      let ?st' = "searchStep isMaxNode p res st"
      show ?thesis
      proof (cases isMaxNode)
        case mx: True
        from mx searchStep_max[OF r "2.prems"(6,7,8), of p]
        have ss: "lsA ?st' = JNum (max al r)" "lsB ?st' = JNum be" "lsCurVal ?st' = JNum (max cv r)"
          "lsPruneRest ?st' = (be \<le> max al r \<or> lsPruneRest st)"
          "sv_inv isMaxNode st \<longrightarrow> sv_inv isMaxNode ?st'"
          by simp_all
        from "2.prems"(10) mx have cval: "cv \<le> al" by simp
        have pre: "if isMaxNode then max cv r \<le> max al r else be \<le> max cv r"
          using mx cval by (auto simp: max_def)
        have pr': "\<not> lsPruneRest ?st' \<longrightarrow> max al r < be"
          using ss(4) mx by (auto simp: not_le)
        from "2.IH"(4)[OF kb npr rem a refl rok "2.prems"(2,3,4) klen ss(1,2,3) pr' pre]
        obtain st1 rest1 cv1 where
          l: "abLoop bFac p isMaxNode (k + 1) rest ?st' = Inr (st1, rest1)"
          and cv1: "lsCurVal st1 = JNum cv1"
          and q1: "lsPruneRest ?st' \<longrightarrow> cv1 = max cv r"
          and q2: "\<not> lsPruneRest ?st' \<longrightarrow>
                (\<forall>M. best isMaxNode rest = Some M \<longrightarrow> loopspec isMaxNode (max al r) be (max cv r) cv1 M)"
          and q3: "is_fin (max cv r) \<or> \<not> lsPruneRest ?st' \<and> rest \<noteq> [] \<longrightarrow> is_fin cv1"
          and sv: "sv_inv isMaxNode ?st' \<longrightarrow> sv_inv isMaxNode st1"
          by blast
        from q1 q2 q3 ss(4) npr mx have
          p1: "be \<le> max al r \<longrightarrow> cv1 = max cv r"
          and p2: "\<not> be \<le> max al r \<longrightarrow>
                (\<forall>M. best isMaxNode rest = Some M \<longrightarrow> loopspec isMaxNode (max al r) be (max cv r) cv1 M)"
          and p3: "is_fin (max cv r) \<longrightarrow> is_fin cv1"
          by auto
        from kb npr rem a l have run: "abLoop bFac p isMaxNode k rem st = Inr (st1, c1 # rest1)"
          by (simp add: abLoop.simps[of bFac p isMaxNode k])
        from cval albe have "cv \<noteq> PosInf" by auto
        with fr p3 have f1: "is_fin cv1" by (simp add: is_fin_max)
        have "loopspec isMaxNode al be cv cv1 M" if "best isMaxNode rem = Some M" for M
        proof -
          from that rem mx obtain mc Mr where mc: "minimax c = Some mc" and Mr: "best True rest = Some Mr"
            and M: "M = max mc Mr"
            by (auto split: option.splits)
          from bd mc have b: "fs_bounds al be r mc" by simp
          show ?thesis
          proof (cases "be \<le> max al r")
            case True
            with p1 max_step_prune[OF cval albe b True, of Mr] M mx show ?thesis by simp
          next
            case False
            then have lt: "max al r < be" by (simp add: not_le)
            from False p2 Mr mx have "loopspec True (max al r) be (max cv r) cv1 Mr" by simp
            from max_step_go[OF cval albe b lt this] M mx show ?thesis by simp
          qed
        qed
        with run cv1 f1 npr sv ss(5) mx show ?thesis
          by auto
      next
        case mn: False
        from mn searchStep_min[OF r "2.prems"(6,7,8), of p]
        have ss: "lsA ?st' = JNum al" "lsB ?st' = JNum (min be r)" "lsCurVal ?st' = JNum (min cv r)"
          "lsPruneRest ?st' = (min be r \<le> al \<or> lsPruneRest st)"
          "sv_inv isMaxNode st \<longrightarrow> sv_inv isMaxNode ?st'"
          by simp_all
        from "2.prems"(10) mn have cval: "be \<le> cv" by simp
        have pre: "if isMaxNode then min cv r \<le> al else min be r \<le> min cv r"
          using mn cval by (auto simp: min_def)
        have pr': "\<not> lsPruneRest ?st' \<longrightarrow> al < min be r"
          using ss(4) mn by (auto simp: not_le)
        from "2.IH"(4)[OF kb npr rem a refl rok "2.prems"(2,3,4) klen ss(1,2,3) pr' pre]
        obtain st1 rest1 cv1 where
          l: "abLoop bFac p isMaxNode (k + 1) rest ?st' = Inr (st1, rest1)"
          and cv1: "lsCurVal st1 = JNum cv1"
          and q1: "lsPruneRest ?st' \<longrightarrow> cv1 = min cv r"
          and q2: "\<not> lsPruneRest ?st' \<longrightarrow>
                (\<forall>M. best isMaxNode rest = Some M \<longrightarrow> loopspec isMaxNode al (min be r) (min cv r) cv1 M)"
          and q3: "is_fin (min cv r) \<or> \<not> lsPruneRest ?st' \<and> rest \<noteq> [] \<longrightarrow> is_fin cv1"
          and sv: "sv_inv isMaxNode ?st' \<longrightarrow> sv_inv isMaxNode st1"
          by blast
        from q1 q2 q3 ss(4) npr mn have
          p1: "min be r \<le> al \<longrightarrow> cv1 = min cv r"
          and p2: "\<not> min be r \<le> al \<longrightarrow>
                (\<forall>M. best isMaxNode rest = Some M \<longrightarrow> loopspec isMaxNode al (min be r) (min cv r) cv1 M)"
          and p3: "is_fin (min cv r) \<longrightarrow> is_fin cv1"
          by auto
        from kb npr rem a l have run: "abLoop bFac p isMaxNode k rem st = Inr (st1, c1 # rest1)"
          by (simp add: abLoop.simps[of bFac p isMaxNode k])
        from cval albe have "cv \<noteq> NegInf" by auto
        with fr p3 have f1: "is_fin cv1" by (simp add: is_fin_min)
        have "loopspec isMaxNode al be cv cv1 M" if "best isMaxNode rem = Some M" for M
        proof -
          from that rem mn obtain mc Mr where mc: "minimax c = Some mc" and Mr: "best False rest = Some Mr"
            and M: "M = min mc Mr"
            by (auto split: option.splits)
          from bd mc have b: "fs_bounds al be r mc" by simp
          show ?thesis
          proof (cases "min be r \<le> al")
            case True
            with p1 min_step_prune[OF cval albe b True, of Mr] M mn show ?thesis by simp
          next
            case False
            then have lt: "al < min be r" by (simp add: not_le)
            from False p2 Mr mn have "loopspec False al (min be r) (min cv r) cv1 Mr" by simp
            from min_step_go[OF cval albe b lt this] M mn show ?thesis by simp
          qed
        qed
        with run cv1 f1 npr sv ss(5) mn show ?thesis
          by auto
      qed
    qed
  qed
qed

lemma gen_ok_search_ok:
  "gen_ok maxDepth bFac isRoot kind d n \<Longrightarrow> d \<le> maxDepth \<Longrightarrow> finite_leaves n \<Longrightarrow>
     search_ok bFac isRoot kind (maxDepth - d) n"
proof (induction maxDepth bFac isRoot kind d n rule: gen_ok.induct)
  case (1 maxDepth bFac isRoot kind d nf cs)
  show ?case
  proof (cases "d = maxDepth")
    case True
    with "1.prems" show ?thesis by (auto split: if_splits)
  next
    case False
    with "1.prems" have lt: "d < maxDepth" by simp
    then have h: "maxDepth - d = Suc (maxDepth - (d + 1))" by simp
    have "search_ok bFac False (oppositeNodeType kind) (maxDepth - (d + 1)) c" if "c \<in> set cs" for c
      using "1.IH"[OF False that] that "1.prems"(1) "1.prems"(3) False lt by simp
    with "1.prems"(1) False show ?thesis
      by (simp add: h split: if_splits)
  qed
qed

lemma generated_gen_ok:
  assumes "1 \<le> maxDepth"
  shows "\<exists>t s1. generateABTreeRootNode rnd treeType0 maxDepth bFac minVal maxVal s = Some (t, s1) \<and>
           gen_ok maxDepth bFac True treeType0 1 t"
  using generate_ok(1)[of 1 maxDepth rnd minVal maxVal None treeType0 bFac s] assms
  by (auto simp: generateABTreeRootNode_def)

lemma leaf_compiles:
  "map_sum id (\<lambda>r. rootShadowValue (snd r)) (alphaBeta leaf_tree) = Inr JUndefined \<and>
   map_option minimax (rootNode leaf_tree) = Some (Some (Fin 3))"
  by (simp add: leaf_tree_def scenario_rnd_def rootShadowValue_def compile_simps)

text \<open>
  C1, as stated, fails on the smallest generated tree. With the declared depth 1 the
  root is a leaf; the search returns its value and writes no \<open>__value\<close>, so the root's
  shadow value stays \<open>undefined\<close> while plain minimax gives 3.
\<close>

theorem C1_leaf_root_has_no_shadow_value:
  "map_sum id (\<lambda>r. rootShadowValue (snd r)) (alphaBeta leaf_tree) = Inr JUndefined \<and>
   map_option minimax (rootNode leaf_tree) = Some (Some (Fin 3))"
  using leaf_compiles by simp

text \<open>
  C1, amended. For every tree the generator builds with a declared depth of at least 2
  (so that the root is an interior node), a root kind \<open>maxNode\<close> or \<open>minNode\<close> and a
  branching factor of at least 1, if every leaf holds a finite number then \<open>alphaBeta\<close>
  returns, and the shadow value it leaves at the root is the value of the plain,
  unpruned minimax evaluation of that tree.
\<close>

theorem C1_root_shadow_is_minimax:
  assumes "2 \<le> maxDepth" and "1 \<le> bFac" and "treeType0 \<in> {maxNode, minNode}"
  shows "\<exists>t s1.
           generateABTreeRootNode rnd treeType0 maxDepth bFac minVal maxVal s = Some (t, s1) \<and>
           (finite_leaves t \<longrightarrow>
              (\<exists>q tree1 v.
                 alphaBeta ((createTree treeType0 maxDepth bFac)\<lparr>rootNode := Some t\<rparr>) = Inr (q, tree1) \<and>
                 rootShadowValue tree1 = JNum v \<and> minimax t = Some v))"
proof -
  from assms(1) have d1: "1 \<le> maxDepth" by simp
  from generated_gen_ok[OF d1, of rnd treeType0 bFac minVal maxVal s]
  obtain t s1 where g: "generateABTreeRootNode rnd treeType0 maxDepth bFac minVal maxVal s = Some (t, s1)"
    and gok: "gen_ok maxDepth bFac True treeType0 1 t"
    by blast
  have "\<exists>q tree1 v.
          alphaBeta ((createTree treeType0 maxDepth bFac)\<lparr>rootNode := Some t\<rparr>) = Inr (q, tree1) \<and>
          rootShadowValue tree1 = JNum v \<and> minimax t = Some v"
    if fin: "finite_leaves t"
  proof -
    from gen_ok_search_ok[OF gok d1 fin] have ok: "search_ok bFac True treeType0 (maxDepth - 1) t" .
    from assms(2) have bf: "0 < bFac" by simp
    have lt: "NegInf < PosInf" by simp
    from abActions_sound(1)[OF ok assms(3) refl bf refl refl lt, of "[]"]
    obtain res n1 v where
      a: "abActions bFac [] t (JNum NegInf) (JNum PosInf) (treeType0 = maxNode) = Inr (res, n1)"
      and f: "is_fin v"
      and bd: "\<forall>m. minimax t = Some m \<longrightarrow> fs_bounds NegInf PosInf v m"
      and sh: "0 < maxDepth - 1 \<longrightarrow> shadowValue (nfields n1) = JNum v"
      by auto
    from search_ok_minimax(1)[OF ok assms(3)] obtain m where m: "minimax t = Some m" by blast
    with bd have "fs_bounds NegInf PosInf v m" by simp
    with f have "m = v"
      by (cases v) (simp_all add: fs_bounds_def)
    with m a sh assms(1) show ?thesis
      by (simp add: alphaBeta_def createTree_def rootShadowValue_def)
  qed
  with g show ?thesis by blast
qed

lemma scenario_generated:
  "\<exists>t s1. generateABTreeRootNode scenario_rnd maxNode 3 2 (Some (Fin (- 20))) (Some (Fin 20))
            \<lparr>globalNodeId = 0, randomCalls = 0\<rparr> = Some (t, s1) \<and> finite_leaves t"
  by (simp add: scenario_rnd_def compile_simps)

theorem C1_root_shadow_is_minimax_witness:
  "\<exists>t s1.
     generateABTreeRootNode scenario_rnd maxNode 3 2 (Some (Fin (- 20))) (Some (Fin 20))
       \<lparr>globalNodeId = 0, randomCalls = 0\<rparr> = Some (t, s1) \<and>
     finite_leaves t \<and>
     (\<exists>q tree1 v.
        alphaBeta ((createTree maxNode 3 2)\<lparr>rootNode := Some t\<rparr>) = Inr (q, tree1) \<and>
        rootShadowValue tree1 = JNum v \<and> minimax t = Some v)"
  using C1_root_shadow_is_minimax[of 3 2 maxNode scenario_rnd "Some (Fin (- 20))" "Some (Fin 20)"
          "\<lparr>globalNodeId = 0, randomCalls = 0\<rparr>"]
    scenario_generated
  by auto

section \<open>Pruned subtrees are never read\<close>

lemma searchStep_edge [simp]: "edgeToParent (lsNode (searchStep m p res st)) = edgeToParent (lsNode st)"
  by (simp add: searchStep_def Let_def)

lemma pruneStep_edge [simp]: "edgeToParent (lsNode (pruneStep p acts st)) = edgeToParent (lsNode st)"
  by (simp add: pruneStep_def)

lemma searchStep_kind [simp]: "nodeType (lsNode (searchStep m p res st)) = nodeType (lsNode st)"
  by (simp add: searchStep_def Let_def)

lemma pruneStep_kind [simp]: "nodeType (lsNode (pruneStep p acts st)) = nodeType (lsNode st)"
  by (simp add: pruneStep_def)

lemma abLoop_node_kept:
  shows "abActions bFac p n a b isMaxNode = Inr (res, n1) \<Longrightarrow>
           edgeToParent (nfields n1) = edgeToParent (nfields n) \<and> nodeType (nfields n1) = nodeType (nfields n)"
    and "abLoop bFac p isMaxNode k rem st = Inr (st1, rem1) \<Longrightarrow>
           edgeToParent (lsNode st1) = edgeToParent (lsNode st) \<and> nodeType (lsNode st1) = nodeType (lsNode st) \<and>
           length rem1 = length rem"
proof (induction bFac p n a b isMaxNode and bFac p isMaxNode k rem st
       arbitrary: res n1 and st1 rem1 rule: abActions_abLoop.induct)
  case (1 bFac p nf cs a b isMaxNode)
  from abActions_unfold[OF "1.prems"] show ?case
  proof (elim disjE conjE exE)
    assume "n1 = TreeNode nf cs"
    then show ?thesis by simp
  next
    fix st cs1
    assume nl: "nodeType nf \<noteq> leafNode"
      and l: "abLoop bFac p isMaxNode 0 cs
            \<lparr>lsA = a, lsB = b, lsCurVal = JNum (if isMaxNode then NegInf else PosInf),
             lsPruneRest = False, lsLastChildExitActions = [], lsChildActionsList = [],
             lsNode = nf\<lparr>shadowAlpha := a, shadowBeta := b\<rparr>\<rparr> = Inr (st, cs1)"
      and n1: "n1 = TreeNode (lsNode st) cs1"
    from "1.IH"[OF refl refl nl l] n1 show ?thesis
      by simp
  qed
next
  case (2 bFac p isMaxNode k rem st)
  from abLoop_unfold[OF "2.prems"] show ?case
  proof (elim disjE conjE exE)
    assume "st1 = st" "rem1 = rem"
    then show ?thesis by simp
  next
    assume kb: "k < bFac" and pr: "lsPruneRest st" and e: "rem = []"
      and l: "abLoop bFac p isMaxNode (k + 1) [] (pruneStep p [] st) = Inr (st1, rem1)"
    from "2.IH"(1)[OF kb pr e l] e show ?thesis
      by simp
  next
    fix c rest acts c1 rest1
    assume kb: "k < bFac" and pr: "lsPruneRest st" and e: "rem = c # rest"
      and pi: "pruneInner bFac (p @ [k]) c = (acts, c1)"
      and l: "abLoop bFac p isMaxNode (k + 1) rest (pruneStep p acts st) = Inr (st1, rest1)"
      and r: "rem1 = c1 # rest1"
    from "2.IH"(2)[OF kb pr e pi[symmetric] l] e r show ?thesis
      by simp
  next
    fix c rest res c1 rest1
    assume kb: "k < bFac" and npr: "\<not> lsPruneRest st" and e: "rem = c # rest"
      and a: "abActions bFac (p @ [k]) c (lsA st) (lsB st) (\<not> isMaxNode) = Inr (res, c1)"
      and l: "abLoop bFac p isMaxNode (k + 1) rest (searchStep isMaxNode p res st) = Inr (st1, rest1)"
      and r: "rem1 = c1 # rest1"
    from "2.IH"(4)[OF kb npr e a refl l] e r
    show ?thesis
      by simp
  qed
qed

lemma searchStep_agree:
  "agree st st' \<Longrightarrow> returnVal res' = returnVal res \<Longrightarrow>
     agree (searchStep m p res st) (searchStep m p' res' st')"
  by (simp add: agree_def searchStep_def Let_def)

lemma pruneStep_agree:
  "agree st st' \<Longrightarrow> agree (pruneStep p acts st) (pruneStep p' acts' st')"
  by (simp add: agree_def pruneStep_def)

lemma searchStep_same_shadow:
  "agree st st' \<Longrightarrow> returnVal res' = returnVal res \<Longrightarrow> same_shadow v st st' \<Longrightarrow>
     same_shadow v (searchStep m p res st) (searchStep m p' res' st')"
  by (auto simp: agree_def same_shadow_def searchStep_def Let_def)

lemma pruneStep_same_shadow:
  "same_shadow v st st' \<Longrightarrow> same_shadow v (pruneStep p acts st) (pruneStep p' acts' st')"
  by (simp add: same_shadow_def pruneStep_def)

lemma abActions_returns:
  shows "complete bFac n \<Longrightarrow> \<exists>res n1. abActions bFac p n a b isMaxNode = Inr (res, n1)"
    and "(\<forall>c \<in> set rem. complete bFac c) \<Longrightarrow> bFac \<le> k + length rem \<Longrightarrow>
           \<exists>st1 rem1. abLoop bFac p isMaxNode k rem st = Inr (st1, rem1)"
proof (induction bFac p n a b isMaxNode and bFac p isMaxNode k rem st
       rule: abActions_abLoop.induct)
  case (1 bFac p nf cs a b isMaxNode)
  show ?case
  proof (cases "nodeType nf = leafNode")
    case True
    then show ?thesis by (simp add: abActions.simps Let_def)
  next
    case False
    with "1.prems" have ch: "\<forall>c \<in> set cs. complete bFac c" and le: "bFac \<le> 0 + length cs"
      by simp_all
    from "1.IH"[OF refl refl False ch le] obtain st1 rem1 where
      "abLoop bFac p isMaxNode 0 cs
         \<lparr>lsA = a, lsB = b, lsCurVal = JNum (if isMaxNode then NegInf else PosInf),
          lsPruneRest = False, lsLastChildExitActions = [], lsChildActionsList = [],
          lsNode = nf\<lparr>shadowAlpha := a, shadowBeta := b\<rparr>\<rparr> = Inr (st1, rem1)"
      by blast
    with False show ?thesis by (simp add: abActions.simps Let_def)
  qed
next
  case (2 bFac p isMaxNode k rem st)
  show ?case
  proof (cases "k < bFac")
    case False
    then show ?thesis by (simp add: abLoop.simps[of bFac p isMaxNode k])
  next
    case kb: True
    with "2.prems"(2) obtain c rest where e: "rem = c # rest" by (cases rem) auto
    from "2.prems" e have cc: "complete bFac c" and rc: "\<forall>c \<in> set rest. complete bFac c"
      and le: "bFac \<le> (k + 1) + length rest"
      by simp_all
    show ?thesis
    proof (cases "lsPruneRest st")
      case True
      obtain acts c1 where pi: "pruneInner bFac (p @ [k]) c = (acts, c1)"
        by (cases "pruneInner bFac (p @ [k]) c")
      from "2.IH"(2)[OF kb True e pi[symmetric] rc le] obtain st1 rest1 where
        "abLoop bFac p isMaxNode (k + 1) rest (pruneStep p acts st) = Inr (st1, rest1)"
        by blast
      with kb True e pi show ?thesis by (simp add: abLoop.simps[of bFac p isMaxNode k])
    next
      case False
      from "2.IH"(3)[OF kb False e cc] obtain res c1 where
        a: "abActions bFac (p @ [k]) c (lsA st) (lsB st) (\<not> isMaxNode) = Inr (res, c1)"
        by blast
      from "2.IH"(4)[OF kb False e a refl rc le] obtain st1 rest1 where
        "abLoop bFac p isMaxNode (k + 1) rest (searchStep isMaxNode p res st) = Inr (st1, rest1)"
        by blast
      with kb False e a show ?thesis by (simp add: abLoop.simps[of bFac p isMaxNode k])
    qed
  qed
qed

lemma gen_ok_complete: "gen_ok maxDepth bFac isRoot kind d n \<Longrightarrow> complete bFac n"
proof (induction maxDepth bFac isRoot kind d n rule: gen_ok.induct)
  case (1 maxDepth bFac isRoot kind d nf cs)
  show ?case
  proof (cases "d = maxDepth")
    case True
    with "1.prems" show ?thesis by simp
  next
    case False
    with "1.prems" "1.IH" show ?thesis by simp
  qed
qed

lemma rerun_same_value:
  shows "abActions bFac p n a b isMaxNode = Inr (res, n1) \<Longrightarrow> no_pruned n \<Longrightarrow>
           \<exists>res2 n2. abActions bFac p (perturb f False p n1) a b isMaxNode = Inr (res2, n2) \<and>
             returnVal res2 = returnVal res \<and> shadowValue (nfields n2) = shadowValue (nfields n1)"
    and "abLoop bFac p isMaxNode k rem st = Inr (st1, rem1) \<Longrightarrow> (\<forall>c \<in> set rem. no_pruned c) \<Longrightarrow>
           agree st st' \<Longrightarrow> same_shadow v st st' \<Longrightarrow>
           \<exists>st2 rem2. abLoop bFac p isMaxNode k (perturbChildren f False p k rem1) st' = Inr (st2, rem2) \<and>
             agree st1 st2 \<and> same_shadow v st1 st2"
proof (induction bFac p n a b isMaxNode and bFac p isMaxNode k rem st
       arbitrary: res n1 and st1 rem1 st' v rule: abActions_abLoop.induct)
  case (1 bFac p nf cs a b isMaxNode)
  from "1.prems"(2) have ne: "\<not> (case edgeToParent nf of None \<Rightarrow> False | Some e \<Rightarrow> truthy (edgeShadowPruned e))"
    and cnp: "\<forall>c \<in> set cs. no_pruned c"
    by (auto split: option.splits)
  from abActions_unfold[OF "1.prems"(1)] show ?case
  proof (elim disjE conjE exE)
    assume "nodeType nf = leafNode" "n1 = TreeNode nf cs" "returnVal res = nodeValue nf"
    with ne show ?thesis
      by (simp add: abActions.simps Let_def)
  next
    fix st :: LoopState and cs1
    let ?st0 = "\<lparr>lsA = a, lsB = b, lsCurVal = JNum (if isMaxNode then NegInf else PosInf),
             lsPruneRest = False, lsLastChildExitActions = [], lsChildActionsList = [],
             lsNode = nf\<lparr>shadowAlpha := a, shadowBeta := b\<rparr>\<rparr>"
    let ?st0' = "\<lparr>lsA = a, lsB = b, lsCurVal = JNum (if isMaxNode then NegInf else PosInf),
             lsPruneRest = False, lsLastChildExitActions = [], lsChildActionsList = [],
             lsNode = (lsNode st)\<lparr>shadowAlpha := a, shadowBeta := b\<rparr>\<rparr>"
    assume nl: "nodeType nf \<noteq> leafNode"
      and l: "abLoop bFac p isMaxNode 0 cs ?st0 = Inr (st, cs1)"
      and n1: "n1 = TreeNode (lsNode st) cs1"
      and rv: "returnVal res = lsCurVal st"
    from abLoop_node_kept(2)[OF l] have kept: "edgeToParent (lsNode st) = edgeToParent nf"
      "nodeType (lsNode st) = nodeType nf"
      by simp_all
    have ag: "agree ?st0 ?st0'" by (simp add: agree_def)
    have ss: "same_shadow (shadowValue (lsNode st)) ?st0 ?st0'" by (simp add: same_shadow_def)
    from "1.IH"[OF refl refl nl l cnp ag ss] obtain st2 rem2 where
      l2: "abLoop bFac p isMaxNode 0 (perturbChildren f False p 0 cs1) ?st0' = Inr (st2, rem2)"
      and ag2: "agree st st2"
      and ss2: "same_shadow (shadowValue (lsNode st)) st st2"
      by blast
    from ss2 have sv: "shadowValue (lsNode st2) = shadowValue (lsNode st)"
      by (auto simp: same_shadow_def)
    from n1 kept ne nl have pn: "perturb f False p n1 = TreeNode (lsNode st) (perturbChildren f False p 0 cs1)"
      by simp
    from l2 kept nl have "\<exists>res2 n2. abActions bFac p (TreeNode (lsNode st) (perturbChildren f False p 0 cs1)) a b isMaxNode
        = Inr (res2, n2) \<and> returnVal res2 = lsCurVal st2 \<and> nfields n2 = lsNode st2"
      by (simp add: abActions.simps Let_def)
    with pn rv ag2 sv n1 show ?thesis
      by (auto simp: agree_def)
  qed
next
  case (2 bFac p isMaxNode k rem st)
  from abLoop_unfold[OF "2.prems"(1)] show ?case
  proof (elim disjE conjE exE)
    assume nk: "\<not> k < bFac" and e: "st1 = st" "rem1 = rem"
    from nk have "abLoop bFac p isMaxNode k (perturbChildren f False p k rem1) st'
        = Inr (st', perturbChildren f False p k rem1)"
      by (simp add: abLoop.simps[of bFac p isMaxNode k])
    with e "2.prems"(3) "2.prems"(4) show ?thesis by simp
  next
    assume kb: "k < bFac" and pr: "lsPruneRest st" and e: "rem = []"
      and l: "abLoop bFac p isMaxNode (k + 1) [] (pruneStep p [] st) = Inr (st1, rem1)"
    from "2.prems"(3) pr have pr': "lsPruneRest st'" by (simp add: agree_def)
    from abLoop_node_kept(2)[OF l] have r1: "rem1 = []" by simp
    from "2.IH"(1)[OF kb pr e l _ pruneStep_agree[OF "2.prems"(3), where p'=p and acts'="[]"]
           pruneStep_same_shadow[OF "2.prems"(4), where p'=p and acts'="[]"]] r1
    obtain st2 rem2 where
      l2: "abLoop bFac p isMaxNode (k + 1) [] (pruneStep p [] st') = Inr (st2, rem2)"
      and ag: "agree st1 st2 \<and> same_shadow v st1 st2"
      by auto
    from kb pr' l2 r1 have "abLoop bFac p isMaxNode k (perturbChildren f False p k rem1) st'
        = Inr (st2, rem2)"
      by (simp add: abLoop.simps[of bFac p isMaxNode k])
    with ag show ?thesis by blast
  next
    fix c rest acts c1 rest1
    assume kb: "k < bFac" and pr: "lsPruneRest st" and e: "rem = c # rest"
      and pi: "pruneInner bFac (p @ [k]) c = (acts, c1)"
      and l: "abLoop bFac p isMaxNode (k + 1) rest (pruneStep p acts st) = Inr (st1, rest1)"
      and r: "rem1 = c1 # rest1"
    from "2.prems"(3) pr have pr': "lsPruneRest st'" by (simp add: agree_def)
    obtain acts2 c2 where pi2: "pruneInner bFac (p @ [k]) (perturb f False (p @ [k]) c1) = (acts2, c2)"
      by (cases "pruneInner bFac (p @ [k]) (perturb f False (p @ [k]) c1)")
    from e "2.prems"(2) have rnp: "\<forall>c \<in> set rest. no_pruned c" by simp
    from "2.IH"(2)[OF kb pr e pi[symmetric] l rnp pruneStep_agree[OF "2.prems"(3), where p'=p and acts'=acts2]
           pruneStep_same_shadow[OF "2.prems"(4), where p'=p and acts'=acts2]]
    obtain st2 rem2 where
      l2: "abLoop bFac p isMaxNode (k + 1) (perturbChildren f False p (k + 1) rest1) (pruneStep p acts2 st')
           = Inr (st2, rem2)"
      and ag: "agree st1 st2 \<and> same_shadow v st1 st2"
      by blast
    from kb pr' pi2 l2 r have "abLoop bFac p isMaxNode k (perturbChildren f False p k rem1) st'
        = Inr (st2, c2 # rem2)"
      by (simp add: abLoop.simps[of bFac p isMaxNode k])
    with ag show ?thesis by blast
  next
    fix c rest res c1 rest1
    assume kb: "k < bFac" and npr: "\<not> lsPruneRest st" and e: "rem = c # rest"
      and a: "abActions bFac (p @ [k]) c (lsA st) (lsB st) (\<not> isMaxNode) = Inr (res, c1)"
      and l: "abLoop bFac p isMaxNode (k + 1) rest (searchStep isMaxNode p res st) = Inr (st1, rest1)"
      and r: "rem1 = c1 # rest1"
    from "2.prems"(3) npr have npr': "\<not> lsPruneRest st'" and ab: "lsA st' = lsA st" "lsB st' = lsB st"
      by (simp_all add: agree_def)
    from e "2.prems"(2) have cnp: "no_pruned c" and rnp: "\<forall>c \<in> set rest. no_pruned c" by simp_all
    from "2.IH"(3)[OF kb npr e a cnp] obtain res2 c2 where
      a2: "abActions bFac (p @ [k]) (perturb f False (p @ [k]) c1) (lsA st) (lsB st) (\<not> isMaxNode) = Inr (res2, c2)"
      and rv: "returnVal res2 = returnVal res"
      by blast
    from "2.IH"(4)[OF kb npr e a refl l rnp searchStep_agree[OF "2.prems"(3) rv, where p'=p]
           searchStep_same_shadow[OF "2.prems"(3) rv "2.prems"(4), where p'=p]]
    obtain st2 rem2 where
      l2: "abLoop bFac p isMaxNode (k + 1) (perturbChildren f False p (k + 1) rest1)
             (searchStep isMaxNode p res2 st') = Inr (st2, rem2)"
      and ag: "agree st1 st2 \<and> same_shadow v st1 st2"
      by blast
    from kb npr' a2 ab l2 r have "abLoop bFac p isMaxNode k (perturbChildren f False p k rem1) st'
        = Inr (st2, c2 # rem2)"
      by (simp add: abLoop.simps[of bFac p isMaxNode k])
    with ag show ?thesis by blast
  qed
qed


lemma gen_ok_no_pruned: "gen_ok maxDepth bFac isRoot kind d n \<Longrightarrow> no_pruned n"
proof (induction maxDepth bFac isRoot kind d n rule: gen_ok.induct)
  case (1 maxDepth bFac isRoot kind d nf cs)
  show ?case
  proof (cases "d = maxDepth")
    case True
    with "1.prems" show ?thesis by (auto split: if_splits)
  next
    case False
    with "1.IH" "1.prems" show ?thesis by (auto split: if_splits)
  qed
qed

text \<open>
  C2. Take any tree the generator builds (declared depth at least 1; any root kind,
  branching factor and bounds) and compile the search. Then give the leaves below the
  edges whose shadow flag \<open>__pruned\<close> the search has set any other values and compile
  again: the search returns again, and the shadow value at the root is the same as
  after the first run.
\<close>

theorem C2_pruned_leaves_do_not_matter:
  assumes "1 \<le> maxDepth"
  shows "\<exists>t s1 q tree1 rootN1 q2 tree2.
           generateABTreeRootNode rnd treeType0 maxDepth bFac minVal maxVal s = Some (t, s1) \<and>
           alphaBeta ((createTree treeType0 maxDepth bFac)\<lparr>rootNode := Some t\<rparr>) = Inr (q, tree1) \<and>
           rootNode tree1 = Some rootN1 \<and>
           alphaBeta (tree1\<lparr>rootNode := Some (perturb f False [] rootN1)\<rparr>) = Inr (q2, tree2) \<and>
           rootShadowValue tree2 = rootShadowValue tree1"
proof -
  from generated_gen_ok[OF assms, of rnd treeType0 bFac minVal maxVal s]
  obtain t s1 where g: "generateABTreeRootNode rnd treeType0 maxDepth bFac minVal maxVal s = Some (t, s1)"
    and gok: "gen_ok maxDepth bFac True treeType0 1 t"
    by blast
  let ?m = "treeType0 = maxNode"
  from abActions_returns(1)[OF gen_ok_complete[OF gok], of "[]" "JNum NegInf" "JNum PosInf" ?m]
  obtain res n1 where
    a: "abActions bFac [] t (JNum NegInf) (JNum PosInf) ?m = Inr (res, n1)"
    by blast
  from rerun_same_value(1)[OF a gen_ok_no_pruned[OF gok], of f]
  obtain res2 n2 where
    a2: "abActions bFac [] (perturb f False [] n1) (JNum NegInf) (JNum PosInf) ?m = Inr (res2, n2)"
    and sv: "shadowValue (nfields n2) = shadowValue (nfields n1)"
    by blast
  with g a show ?thesis
    by (simp add: alphaBeta_def createTree_def rootShadowValue_def)
qed

theorem C2_pruned_leaves_do_not_matter_witness:
  "\<exists>t s1 q tree1 rootN1 q2 tree2.
     generateABTreeRootNode scenario_rnd maxNode 3 2 (Some (Fin (- 20))) (Some (Fin 20))
       \<lparr>globalNodeId = 0, randomCalls = 0\<rparr> = Some (t, s1) \<and>
     alphaBeta ((createTree maxNode 3 2)\<lparr>rootNode := Some t\<rparr>) = Inr (q, tree1) \<and>
     rootNode tree1 = Some rootN1 \<and>
     alphaBeta (tree1\<lparr>rootNode := Some (perturb (\<lambda>p. JNum (Fin 100)) False [] rootN1)\<rparr>) = Inr (q2, tree2) \<and>
     rootShadowValue tree2 = rootShadowValue tree1"
  using C2_pruned_leaves_do_not_matter[of 3 scenario_rnd maxNode 2 "Some (Fin (- 20))" "Some (Fin 20)"
          "\<lparr>globalNodeId = 0, randomCalls = 0\<rparr>" "\<lambda>p. JNum (Fin 100)"]
  by simp

section \<open>Reading the heap through a playback\<close>

lemma nfields_upd_at:
  "map_option nfields (node_at q (upd_at p f t)) =
     (if q = p then map_option (\<lambda>n. f (nfields n)) (node_at p t) else map_option nfields (node_at q t))"
proof (induction q arbitrary: p t)
  case Nil
  show ?case
  proof (cases t)
    case (TreeNode nf cs)
    then show ?thesis by (cases p) simp_all
  qed
next
  case (Cons j q)
  show ?case
  proof (cases t)
    case t: (TreeNode nf cs)
    show ?thesis
    proof (cases p)
      case Nil
      with t show ?thesis by simp
    next
      case p: (Cons k p')
      show ?thesis
      proof (cases "k < length cs")
        case False
        with t p show ?thesis by auto
      next
        case kl: True
        show ?thesis
        proof (cases "j = k")
          case True
          with t p kl Cons.IH[of p' "cs ! k"] show ?thesis by simp
        next
          case False
          with t p kl show ?thesis by simp
        qed
      qed
    qed
  qed
qed

lemma read_write:
  "read_field ob' k' (write_field ob k v t) =
     (if ob' = ob \<and> k' = k then (if read_field ob k t = None then None else Some v)
      else read_field ob' k' t)"
proof (cases ob)
  case ONone
  then show ?thesis by simp
next
  case (ONode p)
  note nu = nfields_upd_at[of _ p "set_node_key k v" t]
  show ?thesis
  proof (cases ob')
    case ONone
    then show ?thesis by simp
  next
    case (ONode q)
    from nu[of q] have
      "map_option (\<lambda>n. get_node_key k' (nfields n)) (node_at q (upd_at p (set_node_key k v) t)) =
         (if q = p then map_option (\<lambda>n. get_node_key k' (set_node_key k v (nfields n))) (node_at p t)
          else map_option (\<lambda>n. get_node_key k' (nfields n)) (node_at q t))"
      by (cases "node_at q (upd_at p (set_node_key k v) t)"; cases "node_at q t"; cases "node_at p t")
         (auto split: if_splits)
    with \<open>ob = ONode p\<close> ONode show ?thesis
      by (cases "node_at p t"; cases k; cases k') auto
  next
    case (OEdge q)
    from nu[of q] have
      "map_option (\<lambda>n. edgeToParent (nfields n)) (node_at q (upd_at p (set_node_key k v) t)) =
         map_option (\<lambda>n. edgeToParent (nfields n)) (node_at q t)"
      by (cases "node_at q (upd_at p (set_node_key k v) t)"; cases "node_at q t"; cases "node_at p t"; cases k)
         (auto split: if_splits)
    with \<open>ob = ONode p\<close> OEdge show ?thesis
      by (cases "node_at q (upd_at p (set_node_key k v) t)"; cases "node_at q t") auto
  qed
next
  case (OEdge p)
  note nu = nfields_upd_at[of _ p "set_edge_of k v" t]
  show ?thesis
  proof (cases ob')
    case ONone
    then show ?thesis by simp
  next
    case (ONode q)
    from nu[of q] have
      "map_option (\<lambda>n. get_node_key k' (nfields n)) (node_at q (upd_at p (set_edge_of k v) t)) =
         map_option (\<lambda>n. get_node_key k' (nfields n)) (node_at q t)"
      by (cases "node_at q (upd_at p (set_edge_of k v) t)"; cases "node_at q t"; cases "node_at p t"; cases k')
         (auto simp: set_edge_of_def split: if_splits)
    with \<open>ob = OEdge p\<close> ONode show ?thesis
      by auto
  next
    case (OEdge q)
    from nu[of q] have e:
      "map_option (\<lambda>n. edgeToParent (nfields n)) (node_at q (upd_at p (set_edge_of k v) t)) =
         (if q = p then map_option (\<lambda>n. map_option (set_edge_key k v) (edgeToParent (nfields n))) (node_at p t)
          else map_option (\<lambda>n. edgeToParent (nfields n)) (node_at q t))"
      by (cases "node_at q (upd_at p (set_edge_of k v) t)"; cases "node_at q t"; cases "node_at p t")
         (auto simp: set_edge_of_def split: if_splits)
    have g: "(case map_option (set_edge_key k v) eo of None \<Rightarrow> None | Some e \<Rightarrow> get_edge_key k' e) =
        (if k' = k then (if (case eo of None \<Rightarrow> None | Some e \<Rightarrow> get_edge_key k e) = None then None else Some v)
         else (case eo of None \<Rightarrow> None | Some e \<Rightarrow> get_edge_key k' e))" for eo
      by (cases eo; cases k; cases k') auto
    show ?thesis
    proof (cases "q = p")
      case True
      with e g[of "edgeToParent (nfields n)" for n] \<open>ob = OEdge p\<close> OEdge show ?thesis
        by (cases "node_at p (upd_at p (set_edge_of k v) t)"; cases "node_at p t") auto
    next
      case False
      with e \<open>ob = OEdge p\<close> OEdge show ?thesis
        by (cases "node_at q (upd_at p (set_edge_of k v) t)"; cases "node_at q t") auto
    qed
  qed
qed


lemma read_none_write:
  "(read_field ob' k' (write_field ob k v t) = None) = (read_field ob' k' t = None)"
  by (simp add: read_write)

lemma read_none_fold_apply:
  "(read_field ob k (fold apply_action step t) = None) = (read_field ob k t = None)"
  by (induction step arbitrary: t) (simp_all add: apply_action_def read_none_write)

lemma read_none_fold_reverse:
  "(read_field ob k (fold reverse_action step t) = None) = (read_field ob k t = None)"
  by (induction step arbitrary: t) (simp_all add: reverse_action_def read_none_write)

lemma read_none_playForward:
  "(read_field ob k (playForward steps t) = None) = (read_field ob k t = None)"
  unfolding playForward_def
  by (induction steps arbitrary: t) (simp_all add: read_none_fold_apply)

lemma last_old_None: "(last_old step tg = None) = (\<forall>a \<in> set step. target a \<noteq> tg)"
  by (induction step) (auto split: option.splits)

lemma first_old_None: "(first_old steps tg = None) = (\<forall>step \<in> set steps. \<forall>a \<in> set step. target a \<noteq> tg)"
proof (induction steps)
  case Nil
  then show ?case by simp
next
  case (Cons s ss)
  have "(first_old (s # ss) tg = None) = (last_old s tg = None \<and> first_old ss tg = None)"
    by (cases "last_old s tg") simp_all
  with Cons show ?case
    by (simp add: last_old_None)
qed

lemma last_old_append:
  "last_old (xs @ ys) tg = (case last_old ys tg of Some v \<Rightarrow> Some v | None \<Rightarrow> last_old xs tg)"
  by (induction xs) (auto split: option.splits)

lemma first_old_append:
  "first_old (xs @ ys) tg = (case first_old xs tg of Some v \<Rightarrow> Some v | None \<Rightarrow> first_old ys tg)"
  by (induction xs) (auto split: option.splits)

lemma read_fold_apply_untargeted:
  "\<forall>a \<in> set step. target a \<noteq> (ob, k) \<Longrightarrow> read_field ob k (fold apply_action step t) = read_field ob k t"
  by (induction step arbitrary: t) (auto simp: apply_action_def read_write target_def)

lemma read_playForward_untargeted:
  assumes "first_old steps (ob, k) = None"
  shows "read_field ob k (playForward steps t) = read_field ob k t"
proof -
  from assms have "\<forall>step \<in> set steps. \<forall>a \<in> set step. target a \<noteq> (ob, k)"
    by (simp add: first_old_None)
  then show ?thesis
    unfolding playForward_def
    by (induction steps arbitrary: t) (simp_all add: read_fold_apply_untargeted)
qed

lemma read_fold_reverse:
  "read_field ob k (fold reverse_action step t) =
     (case last_old step (ob, k) of
        None \<Rightarrow> read_field ob k t
      | Some v \<Rightarrow> if read_field ob k t = None then None else Some v)"
proof (induction step arbitrary: t)
  case Nil
  then show ?case by simp
next
  case (Cons a as)
  have r: "read_field ob k (reverse_action a t) =
      (if target a = (ob, k) then (if read_field ob k t = None then None else Some (oldVal a))
       else read_field ob k t)"
    by (auto simp: reverse_action_def read_write target_def)
  have "read_field ob k (fold reverse_action (a # as) t) =
      (case last_old as (ob, k) of
         None \<Rightarrow> read_field ob k (reverse_action a t)
       | Some v \<Rightarrow> if read_field ob k (reverse_action a t) = None then None else Some v)"
    using Cons.IH[of "reverse_action a t"] by simp
  with r show ?case
    by (auto split: option.splits)
qed

lemma read_playBackward:
  "read_field ob k (playBackward steps t) =
     (case first_old steps (ob, k) of
        None \<Rightarrow> read_field ob k t
      | Some v \<Rightarrow> if read_field ob k t = None then None else Some v)"
proof (induction steps)
  case Nil
  then show ?case by (simp add: playBackward_def)
next
  case (Cons s ss)
  have "playBackward (s # ss) t = fold reverse_action s (playBackward ss t)"
    by (simp add: playBackward_def)
  with Cons show ?case
    by (simp add: read_fold_reverse split: option.splits)
qed

lemma read_round_trip:
  "read_field ob k (playBackward steps (playForward steps t)) =
     (case first_old steps (ob, k) of
        None \<Rightarrow> read_field ob k t
      | Some v \<Rightarrow> if read_field ob k t = None then None else Some v)"
  by (simp add: read_playBackward read_playForward_untargeted read_none_playForward split: option.splits)

lemma forwardLoop_run:
  assumes "inAction q" and "- 1 \<le> lastAction q" and "lastAction q < int (length (actionListQueue q))"
  shows "forwardLoop q t =
           Inr (q\<lparr>lastAction := int (length (actionListQueue q)) - 1\<rparr>,
                playForward (drop (nat (lastAction q + 1)) (actionListQueue q)) t)"
  using assms
proof (induction q t rule: forwardLoop.induct)
  case (1 q t)
  let ?n = "length (actionListQueue q)"
  show ?case
  proof (cases "lastAction q = int ?n - 1")
    case True
    then have "stepForward q t = Inr (False, q, t)"
      by (simp add: stepForward_def)
    moreover from True "1.prems" have "drop (nat (lastAction q + 1)) (actionListQueue q) = []"
      by simp
    moreover from True have "q\<lparr>lastAction := int ?n - 1\<rparr> = q" by simp
    ultimately show ?thesis
      by (simp add: forwardLoop.simps[of q t] playForward_def)
  next
    case False
    let ?q1 = "q\<lparr>lastAction := lastAction q + 1\<rparr>"
    let ?i = "nat (lastAction q + 1)"
    from False "1.prems" have i: "?i < ?n" by auto
    with False "1.prems" have sf: "stepForward q t = Inr (True, ?q1, fold apply_action (actionListQueue q ! ?i) t)"
      by (simp add: stepForward_def step_at_def Let_def)
    from i "1.prems" have p1: "inAction ?q1" "- 1 \<le> lastAction ?q1"
      "lastAction ?q1 < int (length (actionListQueue ?q1))"
      by auto
    from "1.IH"[OF sf refl refl _ p1] have
      "forwardLoop ?q1 (fold apply_action (actionListQueue q ! ?i) t) =
         Inr (?q1\<lparr>lastAction := int ?n - 1\<rparr>,
              playForward (drop (nat (lastAction ?q1 + 1)) (actionListQueue q))
                (fold apply_action (actionListQueue q ! ?i) t))"
      by simp
    moreover from "1.prems" have "nat (lastAction ?q1 + 1) = Suc ?i" by simp
    moreover from i have "drop ?i (actionListQueue q) = actionListQueue q ! ?i # drop (Suc ?i) (actionListQueue q)"
      by (simp add: Cons_nth_drop_Suc)
    ultimately show ?thesis
      using sf by (simp add: forwardLoop.simps[of q t] playForward_def)
  qed
qed

lemma backwardLoop_run:
  assumes "inAction q" and "- 1 \<le> lastAction q" and "lastAction q < int (length (actionListQueue q))"
  shows "backwardLoop q t =
           Inr (q\<lparr>lastAction := - 1\<rparr>,
                playBackward (take (nat (lastAction q + 1)) (actionListQueue q)) t)"
  using assms
proof (induction q t rule: backwardLoop.induct)
  case (1 q t)
  show ?case
  proof (cases "lastAction q = - 1")
    case True
    then have "stepBackward q t = Inr (False, q, t)"
      by (simp add: stepBackward_def)
    moreover from True have "q\<lparr>lastAction := - 1\<rparr> = q" by simp
    ultimately show ?thesis
      using True by (simp add: backwardLoop.simps[of q t] playBackward_def)
  next
    case False
    let ?q1 = "q\<lparr>lastAction := lastAction q - 1\<rparr>"
    let ?i = "nat (lastAction q)"
    from False "1.prems" have i: "?i < length (actionListQueue q)" "0 \<le> lastAction q" by auto
    with False "1.prems" have sb: "stepBackward q t = Inr (True, ?q1, fold reverse_action (actionListQueue q ! ?i) t)"
      by (simp add: stepBackward_def step_at_def)
    from i "1.prems" have p1: "inAction ?q1" "- 1 \<le> lastAction ?q1"
      "lastAction ?q1 < int (length (actionListQueue ?q1))"
      by auto
    from "1.IH"[OF sb refl refl _ p1] have
      "backwardLoop ?q1 (fold reverse_action (actionListQueue q ! ?i) t) =
         Inr (?q1\<lparr>lastAction := - 1\<rparr>,
              playBackward (take (nat (lastAction ?q1 + 1)) (actionListQueue q))
                (fold reverse_action (actionListQueue q ! ?i) t))"
      by simp
    moreover from i have "nat (lastAction ?q1 + 1) = ?i" "nat (lastAction q + 1) = Suc ?i" by simp_all
    moreover from i have "take (Suc ?i) (actionListQueue q) = take ?i (actionListQueue q) @ [actionListQueue q ! ?i]"
      by (simp add: take_Suc_conv_app_nth)
    ultimately show ?thesis
      using sb by (simp add: backwardLoop.simps[of q t] playBackward_def)
  qed
qed

section \<open>Old values in a compiled log\<close>

lemma last_old_Some: "last_old step tg = Some v \<Longrightarrow> \<exists>a \<in> set step. target a = tg \<and> oldVal a = v"
  by (induction step) (auto split: option.splits if_splits)

lemma last_old_all_exp:
  "\<forall>a \<in> set step. oldVal a = exp_old (key a) \<Longrightarrow> old_ok (last_old step tg) tg"
proof (cases "last_old step tg")
  case None
  then show ?thesis by (simp add: old_ok_def)
next
  case (Some v)
  assume "\<forall>a \<in> set step. oldVal a = exp_old (key a)"
  with last_old_Some[OF Some] show ?thesis
    by (auto simp: old_ok_def target_def Some)
qed

lemma merge_old_ok:
  assumes inv: "old_ok (first_old (L @ [X']) tg) tg"
    and child: "old_ok (first_old (E # C @ [X]) tg) tg"
    and sv: "\<forall>a \<in> set (sv1 @ sv2). target a = tg \<longrightarrow> first_old (L @ [X']) tg = None \<longrightarrow>
               oldVal a = exp_old (key a)"
  shows "old_ok (first_old ((L @ [(E @ sv1) @ X'] @ C) @ [X @ sv2]) tg) tg"
proof (cases "first_old (L @ [X']) tg")
  case (Some v)
  with inv have "first_old ((L @ [(E @ sv1) @ X'] @ C) @ [X @ sv2]) tg = Some v"
    by (auto simp: first_old_append last_old_append split: option.splits)
  with inv Some show ?thesis by simp
next
  case None
  then have l: "first_old L tg = None" and x': "last_old X' tg = None"
    by (auto simp: first_old_append split: option.splits)
  from None sv have svok: "\<forall>a \<in> set (sv1 @ sv2). target a = tg \<longrightarrow> oldVal a = exp_old (snd tg)"
    by (auto simp: target_def)
  have s1: "last_old sv1 tg = None \<or> last_old sv1 tg = Some (exp_old (snd tg))"
    using svok last_old_Some[of sv1 tg] by (cases "last_old sv1 tg") auto
  have s2: "last_old sv2 tg = None \<or> last_old sv2 tg = Some (exp_old (snd tg))"
    using svok last_old_Some[of sv2 tg] by (cases "last_old sv2 tg") auto
  from child have c: "first_old (E # C @ [X]) tg = None \<or> first_old (E # C @ [X]) tg = Some (exp_old (snd tg))"
    by (simp add: old_ok_def)
  from l x' s1 s2 c show ?thesis
    by (auto simp: old_ok_def first_old_append last_old_append split: option.splits)
qed

lemma pruneInner_actions:
  shows "\<forall>a \<in> set (fst (pruneInner bFac p n)).
           key a = KPruned \<and> oldVal a = JBool False \<and> newVal a = JBool True"
    and "\<forall>a \<in> set (fst (pruneChildren bFac p k cs)).
           key a = KPruned \<and> oldVal a = JBool False \<and> newVal a = JBool True"
proof (induction bFac p n and bFac p k cs rule: pruneInner_pruneChildren.induct)
  case (1 bFac p nf cs)
  have c: "\<forall>a \<in> set (fst (pruneChildren bFac p 0 cs)).
           key a = KPruned \<and> oldVal a = JBool False \<and> newVal a = JBool True"
    using "1.IH" by (cases "edgeToParent nf") (metis prod.collapse)+
  then show ?case
    by (cases "edgeToParent nf") (auto simp: mkAction_def split: prod.splits)
next
  case (2 bFac p k)
  then show ?case by simp
next
  case (3 bFac p k c rest)
  then show ?case by (auto split: prod.splits)
qed

lemma searchStep_lists:
  "\<exists>sv1 sv2.
     lsChildActionsList (searchStep m p res st) =
       (lsChildActionsList st @ [(enterActions res @ sv1) @ lsLastChildExitActions st] @ childActionsList res) \<and>
     lsLastChildExitActions (searchStep m p res st) = exitActions res @ sv2 \<and>
     (childActionsList res = [] \<longrightarrow> sv2 = []) \<and> (childActionsList res \<noteq> [] \<longrightarrow> sv1 = []) \<and>
     distinct (map target (sv1 @ sv2)) \<and>
     (\<forall>a \<in> set (sv1 @ sv2). object a = ONode p \<and> key a \<in> {KValue, KAlpha, KBeta} \<and>
        (key a = KValue \<longrightarrow> oldVal a = shadowValue (lsNode st))) \<and>
     (shadowValue (lsNode (searchStep m p res st)) \<noteq> shadowValue (lsNode st) \<longrightarrow>
        (\<exists>a \<in> set (sv1 @ sv2). target a = (ONode p, KValue)))"
proof -
  define better where "better = (if m then js_gt (returnVal res) (lsCurVal st) else js_lt (returnVal res) (lsCurVal st))"
  define curVal1 where "curVal1 = (if better then returnVal res else lsCurVal st)"
  define sva where "sva = (if better then [mkAction (ONode p) KValue (shadowValue (lsNode st)) curVal1] else [])"
  define nf1 where "nf1 = (if better then (lsNode st)\<lparr>shadowValue := curVal1\<rparr> else lsNode st)"
  define tighter where "tighter = (if m then js_gt (returnVal res) (lsA st) else js_lt (returnVal res) (lsB st))"
  define a1 where "a1 = (if m \<and> tighter then returnVal res else lsA st)"
  define b1 where "b1 = (if \<not> m \<and> tighter then returnVal res else lsB st)"
  define svb where "svb = (if tighter
                 then (if m then [mkAction (ONode p) KAlpha (shadowAlpha nf1) a1]
                       else [mkAction (ONode p) KBeta (shadowBeta nf1) b1])
                 else [])"
  define sv where "sv = sva @ svb"
  have L: "lsChildActionsList (searchStep m p res st) =
       lsChildActionsList st @ [(if childActionsList res \<noteq> [] then enterActions res else enterActions res @ sv)
          @ lsLastChildExitActions st] @ childActionsList res"
    and X: "lsLastChildExitActions (searchStep m p res st) =
       (if childActionsList res \<noteq> [] then exitActions res @ sv else exitActions res)"
    and S: "shadowValue (lsNode (searchStep m p res st)) = shadowValue nf1"
    by (simp_all add: searchStep_def Let_def sv_def sva_def svb_def nf1_def curVal1_def better_def
          tighter_def a1_def b1_def)
  have d: "distinct (map target sv)"
    by (auto simp: sv_def sva_def svb_def target_def mkAction_def)
  have o: "\<forall>a \<in> set sv. object a = ONode p \<and> key a \<in> {KValue, KAlpha, KBeta} \<and>
        (key a = KValue \<longrightarrow> oldVal a = shadowValue (lsNode st))"
    by (auto simp: sv_def sva_def svb_def mkAction_def split: if_splits)
  have c: "shadowValue nf1 \<noteq> shadowValue (lsNode st) \<longrightarrow> (\<exists>a \<in> set sv. target a = (ONode p, KValue))"
    by (auto simp: sv_def sva_def nf1_def target_def mkAction_def)
  show ?thesis
  proof (cases "childActionsList res = []")
    case True
    with L X S d o c show ?thesis
      by (intro exI[of _ sv] exI[of _ "[]"]) simp
  next
    case False
    with L X S d o c show ?thesis
      by (intro exI[of _ "[]"] exI[of _ sv]) simp
  qed
qed


lemma abActions_result:
  "abActions bFac p (TreeNode nf cs) a b isMaxNode = Inr (res, n1) \<Longrightarrow>
     (nodeType nf = leafNode \<and> n1 = TreeNode nf cs \<and>
        res = \<lparr>returnVal = nodeValue nf,
               enterActions =
                 [mkAction (case edgeToParent nf of None \<Rightarrow> ONone | Some e \<Rightarrow> OEdge p) KEntered (JBool False) (JBool True),
                  mkAction (ONode p) KEntered (JBool False) (JBool True)],
               childActionsList = [],
               exitActions =
                 [mkAction (case edgeToParent nf of None \<Rightarrow> ONone | Some e \<Rightarrow> OEdge p) KEntered (JBool True) (JBool False)]\<rparr>) \<or>
     (nodeType nf \<noteq> leafNode \<and>
        (\<exists>st cs1. abLoop bFac p isMaxNode 0 cs
            \<lparr>lsA = a, lsB = b, lsCurVal = JNum (if isMaxNode then NegInf else PosInf),
             lsPruneRest = False, lsLastChildExitActions = [], lsChildActionsList = [],
             lsNode = nf\<lparr>shadowAlpha := a, shadowBeta := b\<rparr>\<rparr> = Inr (st, cs1) \<and>
           n1 = TreeNode (lsNode st) cs1 \<and>
           res = \<lparr>returnVal = lsCurVal st,
                  enterActions =
                    [mkAction (case edgeToParent nf of None \<Rightarrow> ONone | Some e \<Rightarrow> OEdge p) KEntered (JBool False) (JBool True),
                     mkAction (ONode p) KEntered (JBool False) (JBool True),
                     mkAction (ONode p) KAlpha (alpha nf) a, mkAction (ONode p) KBeta (beta nf) b],
                  childActionsList = lsChildActionsList st @ [lsLastChildExitActions st],
                  exitActions =
                    [mkAction (case edgeToParent nf of None \<Rightarrow> ONone | Some e \<Rightarrow> OEdge p) KEntered (JBool True) (JBool False),
                     mkAction (ONode p) KEntered (JBool True) (JBool False)]\<rparr>))"
  by (subst (asm) abActions.simps) (auto simp: Let_def split: if_splits sum.splits)

lemma loop_oldsD1:
  "loop_olds p st \<Longrightarrow> tg \<notin> {(ONode p, KAlpha), (ONode p, KBeta)} \<Longrightarrow>
     old_ok (first_old (lsChildActionsList st @ [lsLastChildExitActions st]) tg) tg"
  unfolding loop_olds_def by blast

lemma loop_oldsD2:
  "loop_olds p st \<Longrightarrow> first_old (lsChildActionsList st @ [lsLastChildExitActions st]) (ONode p, KValue) = None \<Longrightarrow>
     shadowValue (lsNode st) = JUndefined"
  unfolding loop_olds_def by blast

lemma pruneStep_olds:
  assumes "\<forall>a \<in> set acts. key a = KPruned \<and> oldVal a = JBool False" and "loop_olds p st"
  shows "loop_olds p (pruneStep p acts st)"
proof -
  let ?new = "acts @ [mkAction (ONode p) KPruned (JBool False) (JBool True)]"
  let ?L = "lsChildActionsList st" and ?X = "lsLastChildExitActions st"
  from assms(1) have n: "\<forall>a \<in> set ?new. key a = KPruned \<and> oldVal a = JBool False"
    by (simp add: mkAction_def)
  have lo: "last_old ?new tg = None \<or> (snd tg = KPruned \<and> last_old ?new tg = Some (JBool False))" for tg
  proof (cases "last_old ?new tg")
    case None
    then show ?thesis by simp
  next
    case (Some v)
    from last_old_Some[OF Some] obtain a where a: "a \<in> set ?new" "target a = tg" "oldVal a = v"
      by blast
    with n have "key a = KPruned" "v = JBool False" by auto
    with a(2) Some show ?thesis
      by (auto simp: target_def)
  qed
  have eq: "first_old (?L @ [?X @ ?new]) tg =
      (case first_old ?L tg of Some v \<Rightarrow> Some v
       | None \<Rightarrow> (case last_old ?new tg of Some v \<Rightarrow> Some v | None \<Rightarrow> last_old ?X tg))" for tg
    by (simp add: first_old_append last_old_append split: option.splits)
  have eq0: "first_old (?L @ [?X]) tg =
      (case first_old ?L tg of Some v \<Rightarrow> Some v | None \<Rightarrow> last_old ?X tg)" for tg
    by (simp add: first_old_append split: option.splits)
  have st: "lsChildActionsList (pruneStep p acts st) = ?L"
    "lsLastChildExitActions (pruneStep p acts st) = ?X @ ?new"
    "shadowValue (lsNode (pruneStep p acts st)) = shadowValue (lsNode st)"
    by (simp_all add: pruneStep_def)
  show ?thesis
    unfolding loop_olds_def st
  proof (intro conjI allI impI)
    fix tg
    assume "tg \<notin> {(ONode p, KAlpha), (ONode p, KBeta)}"
    with assms(2) have "old_ok (first_old (?L @ [?X]) tg) tg"
      by (rule loop_oldsD1)
    with lo[of tg] show "old_ok (first_old (?L @ [?X @ ?new]) tg) tg"
      by (auto simp: eq eq0 old_ok_def split: option.splits)
  next
    assume "first_old (?L @ [?X @ ?new]) (ONode p, KValue) = None"
    then have "first_old (?L @ [?X]) (ONode p, KValue) = None"
      by (auto simp: eq eq0 split: option.splits)
    with assms(2) show "shadowValue (lsNode st) = JUndefined"
      by (rule loop_oldsD2)
  qed
qed

lemma searchStep_olds:
  assumes inv: "loop_olds p st"
    and child: "\<forall>tg. old_ok (first_old (enterActions res # childActionsList res @ [exitActions res]) tg) tg"
  shows "loop_olds p (searchStep m p res st)"
proof -
  let ?L = "lsChildActionsList st" and ?X = "lsLastChildExitActions st"
  let ?E = "enterActions res" and ?C = "childActionsList res" and ?Xc = "exitActions res"
  from searchStep_lists[of m p res st] obtain sv1 sv2 where
    L: "lsChildActionsList (searchStep m p res st) = ?L @ [(?E @ sv1) @ ?X] @ ?C"
    and X: "lsLastChildExitActions (searchStep m p res st) = ?Xc @ sv2"
    and o: "\<forall>a \<in> set (sv1 @ sv2). object a = ONode p \<and> key a \<in> {KValue, KAlpha, KBeta} \<and>
        (key a = KValue \<longrightarrow> oldVal a = shadowValue (lsNode st))"
    and c: "shadowValue (lsNode (searchStep m p res st)) \<noteq> shadowValue (lsNode st) \<longrightarrow>
        (\<exists>a \<in> set (sv1 @ sv2). target a = (ONode p, KValue))"
    by blast
  let ?new = "(?L @ [(?E @ sv1) @ ?X] @ ?C) @ [?Xc @ sv2]"
  from inv have link: "first_old (?L @ [?X]) (ONode p, KValue) = None \<longrightarrow> shadowValue (lsNode st) = JUndefined"
    using loop_oldsD2 by blast
  show ?thesis
    unfolding loop_olds_def L X
  proof (intro conjI allI impI)
    fix tg
    assume ex: "tg \<notin> {(ONode p, KAlpha), (ONode p, KBeta)}"
    with inv have i: "old_ok (first_old (?L @ [?X]) tg) tg"
      by (rule loop_oldsD1)
    from child have ch: "old_ok (first_old (?E # ?C @ [?Xc]) tg) tg" by (rule spec)
    have sv: "\<forall>a \<in> set (sv1 @ sv2). target a = tg \<longrightarrow> first_old (?L @ [?X]) tg = None \<longrightarrow>
               oldVal a = exp_old (key a)"
    proof (intro ballI impI)
      fix a
      assume a: "a \<in> set (sv1 @ sv2)" and t: "target a = tg" and n: "first_old (?L @ [?X]) tg = None"
      from o a have oa: "object a = ONode p" "key a \<in> {KValue, KAlpha, KBeta}"
        "key a = KValue \<longrightarrow> oldVal a = shadowValue (lsNode st)"
        by auto
      with t ex have k: "key a = KValue" and tg: "tg = (ONode p, KValue)"
        by (auto simp: target_def)
      with n link oa show "oldVal a = exp_old (key a)" by simp
    qed
    from merge_old_ok[OF i ch sv] show "old_ok (first_old ?new tg) tg" .
  next
    assume n: "first_old ?new (ONode p, KValue) = None"
    then have nt: "\<forall>step \<in> set ?new. \<forall>a \<in> set step. target a \<noteq> (ONode p, KValue)"
      by (simp only: first_old_None)
    then have "\<forall>a \<in> set (sv1 @ sv2). target a \<noteq> (ONode p, KValue)"
      by auto
    with c have same: "shadowValue (lsNode (searchStep m p res st)) = shadowValue (lsNode st)"
      by blast
    from nt have "\<forall>step \<in> set (?L @ [?X]). \<forall>a \<in> set step. target a \<noteq> (ONode p, KValue)"
      by auto
    then have "first_old (?L @ [?X]) (ONode p, KValue) = None"
      by (simp only: first_old_None)
    with link same show "shadowValue (lsNode (searchStep m p res st)) = JUndefined"
      by simp
  qed
qed

lemma compiled_olds:
  shows "abActions bFac p n a b isMaxNode = Inr (res, n1) \<Longrightarrow> all_fresh n \<Longrightarrow>
           \<forall>tg. old_ok (first_old (enterActions res # childActionsList res @ [exitActions res]) tg) tg"
    and "abLoop bFac p isMaxNode k rem st = Inr (st1, rem1) \<Longrightarrow> (\<forall>c \<in> set rem. all_fresh c) \<Longrightarrow>
           loop_olds p st \<Longrightarrow> loop_olds p st1"
proof (induction bFac p n a b isMaxNode and bFac p isMaxNode k rem st
       arbitrary: res n1 and st1 rem1 rule: abActions_abLoop.induct)
  case (1 bFac p nf cs a b isMaxNode)
  let ?eo = "case edgeToParent nf of None \<Rightarrow> ONone | Some e \<Rightarrow> OEdge p"
  from "1.prems"(2) have fr: "fresh_fields nf" and cf: "\<forall>c \<in> set cs. all_fresh c"
    by simp_all
  from abActions_result[OF "1.prems"(1)] show ?case
  proof (elim disjE conjE exE)
    assume "res = \<lparr>returnVal = nodeValue nf,
               enterActions =
                 [mkAction ?eo KEntered (JBool False) (JBool True),
                  mkAction (ONode p) KEntered (JBool False) (JBool True)],
               childActionsList = [],
               exitActions = [mkAction ?eo KEntered (JBool True) (JBool False)]\<rparr>"
    then show ?thesis
      by (auto simp: old_ok_def target_def mkAction_def)
  next
    fix st :: LoopState and cs1
    let ?st0 = "\<lparr>lsA = a, lsB = b, lsCurVal = JNum (if isMaxNode then NegInf else PosInf),
             lsPruneRest = False, lsLastChildExitActions = [], lsChildActionsList = [],
             lsNode = nf\<lparr>shadowAlpha := a, shadowBeta := b\<rparr>\<rparr>"
    let ?E = "[mkAction ?eo KEntered (JBool False) (JBool True),
               mkAction (ONode p) KEntered (JBool False) (JBool True),
               mkAction (ONode p) KAlpha (alpha nf) a, mkAction (ONode p) KBeta (beta nf) b]"
    let ?X = "[mkAction ?eo KEntered (JBool True) (JBool False),
               mkAction (ONode p) KEntered (JBool True) (JBool False)]"
    assume nl: "nodeType nf \<noteq> leafNode"
      and l: "abLoop bFac p isMaxNode 0 cs ?st0 = Inr (st, cs1)"
      and r: "res = \<lparr>returnVal = lsCurVal st, enterActions = ?E,
                      childActionsList = lsChildActionsList st @ [lsLastChildExitActions st],
                      exitActions = ?X\<rparr>"
    from fr have "loop_olds p ?st0"
      by (simp add: loop_olds_def old_ok_def fresh_fields_def)
    from "1.IH"[OF refl refl nl l cf this] have lo: "loop_olds p st" .
    let ?C = "lsChildActionsList st @ [lsLastChildExitActions st]"
    have "old_ok (first_old (?E # ?C @ [?X]) tg) tg" for tg
    proof (cases "last_old ?E tg")
      case (Some v)
      from fr have "\<forall>a \<in> set ?E. oldVal a = exp_old (key a)"
        by (simp add: mkAction_def fresh_fields_def)
      from last_old_all_exp[OF this, of tg] Some show ?thesis
        by (simp del: last_old.simps)
    next
      case None
      then have nt: "\<forall>a \<in> set ?E. target a \<noteq> tg"
        by (simp only: last_old_None)
      then have ex: "tg \<notin> {(ONode p, KAlpha), (ONode p, KBeta)}"
        by (auto simp: target_def mkAction_def)
      from nt have "\<forall>a \<in> set ?X. target a \<noteq> tg"
        by (auto simp: target_def mkAction_def)
      then have x: "last_old ?X tg = None"
        by (simp only: last_old_None)
      from lo ex have "old_ok (first_old ?C tg) tg"
        by (rule loop_oldsD1)
      with None x show ?thesis
        by (simp add: first_old_append old_ok_def del: last_old.simps split: option.splits)
    qed
    with r show ?thesis by simp
  qed
next
  case (2 bFac p isMaxNode k rem st)
  from abLoop_unfold[OF "2.prems"(1)] show ?case
  proof (elim disjE conjE exE)
    assume "st1 = st"
    with "2.prems"(3) show ?thesis by simp
  next
    assume kb: "k < bFac" and pr: "lsPruneRest st" and e: "rem = []"
      and l: "abLoop bFac p isMaxNode (k + 1) [] (pruneStep p [] st) = Inr (st1, rem1)"
    have "loop_olds p (pruneStep p [] st)"
      by (rule pruneStep_olds[OF _ "2.prems"(3)]) simp
    from "2.IH"(1)[OF kb pr e l _ this] show ?thesis by simp
  next
    fix c rest acts c1 rest1
    assume kb: "k < bFac" and pr: "lsPruneRest st" and e: "rem = c # rest"
      and pi: "pruneInner bFac (p @ [k]) c = (acts, c1)"
      and l: "abLoop bFac p isMaxNode (k + 1) rest (pruneStep p acts st) = Inr (st1, rest1)"
    from pruneInner_actions(1)[of bFac "p @ [k]" c] pi
    have "\<forall>a \<in> set acts. key a = KPruned \<and> oldVal a = JBool False" by simp
    from pruneStep_olds[OF this "2.prems"(3)] have lo: "loop_olds p (pruneStep p acts st)" .
    from e "2.prems"(2) have "\<forall>c \<in> set rest. all_fresh c" by simp
    from "2.IH"(2)[OF kb pr e pi[symmetric] l this lo] show ?thesis .
  next
    fix c rest res c1 rest1
    assume kb: "k < bFac" and npr: "\<not> lsPruneRest st" and e: "rem = c # rest"
      and a: "abActions bFac (p @ [k]) c (lsA st) (lsB st) (\<not> isMaxNode) = Inr (res, c1)"
      and l: "abLoop bFac p isMaxNode (k + 1) rest (searchStep isMaxNode p res st) = Inr (st1, rest1)"
    from e "2.prems"(2) have cf: "all_fresh c" and rf: "\<forall>c \<in> set rest. all_fresh c" by simp_all
    from "2.IH"(3)[OF kb npr e a cf]
    have ch: "\<forall>tg. old_ok (first_old (enterActions res # childActionsList res @ [exitActions res]) tg) tg" .
    from searchStep_olds[OF "2.prems"(3) ch] have "loop_olds p (searchStep isMaxNode p res st)" .
    from "2.IH"(4)[OF kb npr e a refl l rf this] show ?thesis .
  qed
qed

section \<open>Which nodes a compiled log gives a value\<close>

lemma allActs_searchStep:
  "a \<in> allActs (searchStep m p res st) \<Longrightarrow>
     a \<in> allActs st \<or> a \<in> resActs res \<or> (object a = ONode p \<and> key a \<in> {KValue, KAlpha, KBeta})"
proof -
  assume a: "a \<in> allActs (searchStep m p res st)"
  from searchStep_lists[of m p res st] obtain sv1 sv2 where
    L: "lsChildActionsList (searchStep m p res st) =
          lsChildActionsList st @ [(enterActions res @ sv1) @ lsLastChildExitActions st] @ childActionsList res"
    and X: "lsLastChildExitActions (searchStep m p res st) = exitActions res @ sv2"
    and o: "\<forall>a \<in> set (sv1 @ sv2). object a = ONode p \<and> key a \<in> {KValue, KAlpha, KBeta} \<and>
        (key a = KValue \<longrightarrow> oldVal a = shadowValue (lsNode st))"
    by blast
  from a have "a \<in> allActs st \<or> a \<in> resActs res \<or> a \<in> set (sv1 @ sv2)"
    unfolding allActs_def resActs_def L X by auto
  with o show ?thesis by blast
qed

lemma allActs_pruneStep:
  "a \<in> allActs (pruneStep p acts st) \<Longrightarrow> \<forall>a \<in> set acts. key a = KPruned \<Longrightarrow>
     a \<in> allActs st \<or> key a = KPruned"
  by (auto simp: allActs_def pruneStep_def mkAction_def)

lemma interior_at_Cons:
  "j < length cs \<Longrightarrow> interior_at (j # r) (TreeNode nf cs) = interior_at r (cs ! j)"
  by (simp add: interior_at_def)

lemma value_targets:
  shows "abActions bFac p n a b isMaxNode = Inr (res, n1) \<Longrightarrow>
           \<forall>x \<in> resActs res. key x = KValue \<longrightarrow> (\<exists>r. object x = ONode (p @ r) \<and> interior_at r n)"
    and "abLoop bFac p isMaxNode k rem st = Inr (st1, rem1) \<Longrightarrow>
           \<forall>x \<in> allActs st1. x \<in> allActs st \<or>
              (key x = KValue \<longrightarrow> object x = ONode p \<or>
                 (\<exists>j r. j < length rem \<and> object x = ONode (p @ (k + j) # r) \<and> interior_at r (rem ! j)))"
proof (induction bFac p n a b isMaxNode and bFac p isMaxNode k rem st
       arbitrary: res n1 and st1 rem1 rule: abActions_abLoop.induct)
  case (1 bFac p nf cs a b isMaxNode)
  let ?eo = "case edgeToParent nf of None \<Rightarrow> ONone | Some e \<Rightarrow> OEdge p"
  from abActions_result[OF "1.prems"(1)] show ?case
  proof (elim disjE conjE exE)
    assume "res = \<lparr>returnVal = nodeValue nf,
               enterActions =
                 [mkAction ?eo KEntered (JBool False) (JBool True),
                  mkAction (ONode p) KEntered (JBool False) (JBool True)],
               childActionsList = [],
               exitActions = [mkAction ?eo KEntered (JBool True) (JBool False)]\<rparr>"
    then show ?thesis
      by (auto simp: resActs_def mkAction_def)
  next
    fix st :: LoopState and cs1
    let ?st0 = "\<lparr>lsA = a, lsB = b, lsCurVal = JNum (if isMaxNode then NegInf else PosInf),
             lsPruneRest = False, lsLastChildExitActions = [], lsChildActionsList = [],
             lsNode = nf\<lparr>shadowAlpha := a, shadowBeta := b\<rparr>\<rparr>"
    let ?E = "[mkAction ?eo KEntered (JBool False) (JBool True),
               mkAction (ONode p) KEntered (JBool False) (JBool True),
               mkAction (ONode p) KAlpha (alpha nf) a, mkAction (ONode p) KBeta (beta nf) b]"
    let ?X = "[mkAction ?eo KEntered (JBool True) (JBool False),
               mkAction (ONode p) KEntered (JBool True) (JBool False)]"
    assume nl: "nodeType nf \<noteq> leafNode"
      and l: "abLoop bFac p isMaxNode 0 cs ?st0 = Inr (st, cs1)"
      and r: "res = \<lparr>returnVal = lsCurVal st, enterActions = ?E,
                      childActionsList = lsChildActionsList st @ [lsLastChildExitActions st],
                      exitActions = ?X\<rparr>"
    have e0: "allActs ?st0 = {}" by (simp add: allActs_def)
    note ih = "1.IH"[OF refl refl nl l, unfolded e0]
    show ?thesis
    proof (intro ballI impI)
      fix x
      assume x: "x \<in> resActs res" and kv: "key x = KValue"
      from x r kv have "x \<in> allActs st"
        by (auto simp: resActs_def allActs_def mkAction_def)
      with ih kv have "object x = ONode p \<or>
          (\<exists>j r. j < length cs \<and> object x = ONode (p @ (0 + j) # r) \<and> interior_at r (cs ! j))"
        by blast
      then show "\<exists>r. object x = ONode (p @ r) \<and> interior_at r (TreeNode nf cs)"
      proof
        assume "object x = ONode p"
        with nl show ?thesis
          by (intro exI[of _ "[]"]) (simp add: interior_at_def)
      next
        assume "\<exists>j r. j < length cs \<and> object x = ONode (p @ (0 + j) # r) \<and> interior_at r (cs ! j)"
        then obtain j r where "j < length cs" "object x = ONode (p @ j # r)" "interior_at r (cs ! j)"
          by auto
        then show ?thesis
          by (intro exI[of _ "j # r"]) (simp add: interior_at_Cons)
      qed
    qed
  qed
next
  case (2 bFac p isMaxNode k rem st)
  from abLoop_unfold[OF "2.prems"(1)] show ?case
  proof (elim disjE conjE exE)
    assume "st1 = st"
    then show ?thesis by simp
  next
    assume kb: "k < bFac" and pr: "lsPruneRest st" and e: "rem = []"
      and l: "abLoop bFac p isMaxNode (k + 1) [] (pruneStep p [] st) = Inr (st1, rem1)"
    show ?thesis
    proof (intro ballI)
      fix x assume "x \<in> allActs st1"
      with "2.IH"(1)[OF kb pr e l] have
        "x \<in> allActs (pruneStep p [] st) \<or> (key x = KValue \<longrightarrow> object x = ONode p)"
        by auto
      with allActs_pruneStep[of x p "[]" st]
      show "x \<in> allActs st \<or>
              (key x = KValue \<longrightarrow> object x = ONode p \<or>
                 (\<exists>j r. j < length rem \<and> object x = ONode (p @ (k + j) # r) \<and> interior_at r (rem ! j)))"
        by auto
    qed
  next
    fix c rest acts c1 rest1
    assume kb: "k < bFac" and pr: "lsPruneRest st" and e: "rem = c # rest"
      and pi: "pruneInner bFac (p @ [k]) c = (acts, c1)"
      and l: "abLoop bFac p isMaxNode (k + 1) rest (pruneStep p acts st) = Inr (st1, rest1)"
    from pruneInner_actions(1)[of bFac "p @ [k]" c] pi
    have ka: "\<forall>a \<in> set acts. key a = KPruned" by simp
    show ?thesis
    proof (intro ballI)
      fix x assume x: "x \<in> allActs st1"
      from "2.IH"(2)[OF kb pr e pi[symmetric] l] x have
        "x \<in> allActs (pruneStep p acts st) \<or>
           (key x = KValue \<longrightarrow> object x = ONode p \<or>
              (\<exists>j r. j < length rest \<and> object x = ONode (p @ (k + 1 + j) # r) \<and> interior_at r (rest ! j)))"
        by blast
      then show "x \<in> allActs st \<or>
              (key x = KValue \<longrightarrow> object x = ONode p \<or>
                 (\<exists>j r. j < length rem \<and> object x = ONode (p @ (k + j) # r) \<and> interior_at r (rem ! j)))"
      proof
        assume "x \<in> allActs (pruneStep p acts st)"
        from allActs_pruneStep[OF this ka] show ?thesis by auto
      next
        assume h: "key x = KValue \<longrightarrow> object x = ONode p \<or>
              (\<exists>j r. j < length rest \<and> object x = ONode (p @ (k + 1 + j) # r) \<and> interior_at r (rest ! j))"
        show ?thesis
        proof (rule disjI2, rule impI)
          assume "key x = KValue"
          with h have "object x = ONode p \<or>
              (\<exists>j r. j < length rest \<and> object x = ONode (p @ (k + 1 + j) # r) \<and> interior_at r (rest ! j))"
            by simp
          then show "object x = ONode p \<or>
                 (\<exists>j r. j < length rem \<and> object x = ONode (p @ (k + j) # r) \<and> interior_at r (rem ! j))"
          proof
            assume "object x = ONode p" then show ?thesis by simp
          next
            assume "\<exists>j r. j < length rest \<and> object x = ONode (p @ (k + 1 + j) # r) \<and> interior_at r (rest ! j)"
            then obtain j r where "j < length rest" "object x = ONode (p @ (k + 1 + j) # r)"
              "interior_at r (rest ! j)" by blast
            with e show ?thesis
              by (intro disjI2 exI[of _ "Suc j"] exI[of _ r]) simp
          qed
        qed
      qed
    qed
  next
    fix c rest res c1 rest1
    assume kb: "k < bFac" and npr: "\<not> lsPruneRest st" and e: "rem = c # rest"
      and a: "abActions bFac (p @ [k]) c (lsA st) (lsB st) (\<not> isMaxNode) = Inr (res, c1)"
      and l: "abLoop bFac p isMaxNode (k + 1) rest (searchStep isMaxNode p res st) = Inr (st1, rest1)"
    note ch = "2.IH"(3)[OF kb npr e a]
    show ?thesis
    proof (intro ballI)
      fix x assume x: "x \<in> allActs st1"
      from "2.IH"(4)[OF kb npr e a refl l] x have
        "x \<in> allActs (searchStep isMaxNode p res st) \<or>
           (key x = KValue \<longrightarrow> object x = ONode p \<or>
              (\<exists>j r. j < length rest \<and> object x = ONode (p @ (k + 1 + j) # r) \<and> interior_at r (rest ! j)))"
        by blast
      then show "x \<in> allActs st \<or>
              (key x = KValue \<longrightarrow> object x = ONode p \<or>
                 (\<exists>j r. j < length rem \<and> object x = ONode (p @ (k + j) # r) \<and> interior_at r (rem ! j)))"
      proof
        assume "x \<in> allActs (searchStep isMaxNode p res st)"
        from allActs_searchStep[OF this] show ?thesis
        proof (elim disjE)
          assume "x \<in> allActs st" then show ?thesis by simp
        next
          assume xr: "x \<in> resActs res"
          show ?thesis
          proof (rule disjI2, rule impI)
            assume "key x = KValue"
            with ch xr obtain r where "object x = ONode ((p @ [k]) @ r)" "interior_at r c"
              by blast
            with e show "object x = ONode p \<or>
                 (\<exists>j r. j < length rem \<and> object x = ONode (p @ (k + j) # r) \<and> interior_at r (rem ! j))"
              by (intro disjI2 exI[of _ 0] exI[of _ r]) simp
          qed
        next
          assume "object x = ONode p \<and> key x \<in> {KValue, KAlpha, KBeta}"
          then show ?thesis by simp
        qed
      next
        assume h: "key x = KValue \<longrightarrow> object x = ONode p \<or>
              (\<exists>j r. j < length rest \<and> object x = ONode (p @ (k + 1 + j) # r) \<and> interior_at r (rest ! j))"
        show ?thesis
        proof (rule disjI2, rule impI)
          assume "key x = KValue"
          with h have "object x = ONode p \<or>
              (\<exists>j r. j < length rest \<and> object x = ONode (p @ (k + 1 + j) # r) \<and> interior_at r (rest ! j))"
            by simp
          then show "object x = ONode p \<or>
                 (\<exists>j r. j < length rem \<and> object x = ONode (p @ (k + j) # r) \<and> interior_at r (rem ! j))"
          proof
            assume "object x = ONode p" then show ?thesis by simp
          next
            assume "\<exists>j r. j < length rest \<and> object x = ONode (p @ (k + 1 + j) # r) \<and> interior_at r (rest ! j)"
            then obtain j r where "j < length rest" "object x = ONode (p @ (k + 1 + j) # r)"
              "interior_at r (rest ! j)" by blast
            with e show ?thesis
              by (intro disjI2 exI[of _ "Suc j"] exI[of _ r]) simp
          qed
        qed
      qed
    qed
  qed
qed

section \<open>A round trip through the whole log\<close>

lemma resetChildren_length [simp]: "length (resetChildren n k cs) = length cs"
  by (induction cs arbitrary: k) simp_all

lemma resetChildren_nth:
  "j < length cs \<Longrightarrow>
     resetChildren n k cs ! j = (if k + j < n then resetSubTree (cs ! j) else cs ! j)"
proof (induction cs arbitrary: k j)
  case Nil
  then show ?case by simp
next
  case (Cons c cs)
  show ?case
  proof (cases j)
    case 0
    then show ?thesis by simp
  next
    case (Suc i)
    with Cons.prems have "i < length cs" by simp
    from Cons.IH[OF this, of "k + 1"] Suc show ?thesis by simp
  qed
qed

lemma resetChildren_map:
  "length cs + k \<le> n \<Longrightarrow> resetChildren n k cs = map resetSubTree cs"
  by (induction cs arbitrary: k) simp_all

lemma nodeType_reset [simp]: "nodeType (nfields (resetSubTree t)) = nodeType (nfields t)"
  by (cases t) (simp add: Let_def)

lemma interior_at_reset: "interior_at p (resetSubTree t) = interior_at p t"
proof (induction p arbitrary: t)
  case Nil
  then show ?case by (simp add: interior_at_def)
next
  case (Cons j p)
  obtain nf cs where t: "t = TreeNode nf cs" by (cases t)
  show ?case
  proof (cases "j < length cs")
    case False
    with t show ?thesis by (simp add: interior_at_def Let_def)
  next
    case True
    note ih = Cons.IH[of "cs ! j"]
    from True t ih show ?thesis
      by (simp add: interior_at_Cons Let_def resetChildren_nth)
  qed
qed

lemma reset_withoutShadow:
  shows "withoutShadow (resetSubTree t) = resetSubTree (withoutShadow t)"
    and "map withoutShadow (resetChildren n k cs) = resetChildren n k (map withoutShadow cs)"
proof (induction t and n k cs rule: resetSubTree_resetChildren.induct)
  case (1 nf cs)
  then show ?case
    by (cases "edgeToParent nf") (simp_all add: Let_def withoutShadowF_def)
next
  case (2 n k)
  then show ?case by simp
next
  case (3 n k c rest)
  then show ?case by simp
qed

lemma gen_ok_withoutShadow: "gen_ok maxDepth bFac isRoot kind d n \<Longrightarrow> withoutShadow n = n"
proof (induction maxDepth bFac isRoot kind d n rule: gen_ok.induct)
  case (1 maxDepth bFac isRoot kind d nf cs)
  have f: "withoutShadowF nf = nf"
    using "1.prems" by (simp add: withoutShadowF_def fresh_fields_def split: if_splits)
  have "map withoutShadow cs = cs"
  proof (cases "d = maxDepth")
    case True
    with "1.prems" show ?thesis by simp
  next
    case False
    with "1.prems" "1.IH" show ?thesis
      by (intro map_idI) simp
  qed
  with f show ?case by simp
qed

lemma gen_ok_all_fresh: "gen_ok maxDepth bFac isRoot kind d n \<Longrightarrow> all_fresh n"
proof (induction maxDepth bFac isRoot kind d n rule: gen_ok.induct)
  case (1 maxDepth bFac isRoot kind d nf cs)
  show ?case
  proof (cases "d = maxDepth")
    case True
    with "1.prems" show ?thesis by simp
  next
    case False
    with "1.prems" "1.IH" show ?thesis by simp
  qed
qed

lemma opposite_not_leaf: "kind \<noteq> leafNode \<Longrightarrow> oppositeNodeType kind \<noteq> leafNode"
  by (cases kind) simp_all

lemma gen_ok_reset_state:
  "gen_ok maxDepth bFac isRoot kind d n \<Longrightarrow> kind \<noteq> leafNode \<Longrightarrow> reset_state (resetSubTree n)"
proof (induction maxDepth bFac isRoot kind d n rule: gen_ok.induct)
  case (1 maxDepth bFac isRoot kind d nf cs)
  from "1.prems"(1) have fr: "fresh_fields nf" by simp
  show ?case
  proof (cases "d = maxDepth")
    case True
    with "1.prems" show ?thesis
      by (cases isRoot) (simp_all add: Let_def fresh_fields_def)
  next
    case False
    with "1.prems" have k: "nodeType nf = kind" and l: "length cs = bFac" and c: "childNum nf = bFac"
      and ch: "\<forall>c \<in> set cs. gen_ok maxDepth bFac False (oppositeNodeType kind) (d + 1) c"
      by simp_all
    have "reset_state (resetSubTree c)" if "c \<in> set cs" for c
      using "1.IH"[OF False that] ch that opposite_not_leaf[OF "1.prems"(2)] by simp
    moreover have "resetChildren (childNum nf) 0 cs = map resetSubTree cs"
      using l c by (simp add: resetChildren_map)
    ultimately show ?thesis
      using "1.prems" k False
      by (cases isRoot) (simp_all add: Let_def fresh_fields_def)
  qed
qed

lemma reset_state_at: "reset_state t \<Longrightarrow> node_at p t = Some m \<Longrightarrow> reset_state m"
proof (induction p arbitrary: t)
  case Nil
  then show ?case by simp
next
  case (Cons j p)
  obtain nf cs where t: "t = TreeNode nf cs" by (cases t)
  with Cons.prems have j: "j < length cs" and n: "node_at p (cs ! j) = Some m"
    by (simp_all split: if_splits)
  from Cons.prems(1) t j have "reset_state (cs ! j)" by simp
  from Cons.IH[OF this n] show ?case .
qed

lemma reset_state_read:
  assumes "reset_state t" and "read_field ob k t = Some w"
  shows "(k = KEntered \<longrightarrow> w = JBool False) \<and>
         (k = KPruned \<longrightarrow> w = (if is_node ob then JUndefined else JBool False)) \<and>
         (k \<in> {KAlpha, KBeta} \<longrightarrow> is_node ob \<and> (w = JNull \<or> w = JUndefined)) \<and>
         (k = KValue \<longrightarrow> (\<exists>p. ob = ONode p \<and> (interior_at p t \<longrightarrow> w = JNull)))"
proof (cases ob)
  case ONone
  with assms show ?thesis by simp
next
  case (ONode p)
  with assms(2) obtain m where m: "node_at p t = Some m" and w: "w = get_node_key k (nfields m)"
    by auto
  obtain nf cs where mm: "m = TreeNode nf cs" by (cases m)
  from reset_state_at[OF assms(1) m] mm have "reset_state (TreeNode nf cs)" by simp
  with w mm m ONode show ?thesis
    by (cases k) (auto simp: interior_at_def split: if_splits)
next
  case (OEdge p)
  with assms(2) obtain m e where m: "node_at p t = Some m" and e: "edgeToParent (nfields m) = Some e"
    and w: "get_edge_key k e = Some w"
    by (auto split: option.splits)
  obtain nf cs where mm: "m = TreeNode nf cs" by (cases m)
  from reset_state_at[OF assms(1) m] mm have "reset_state (TreeNode nf cs)" by simp
  with w mm e OEdge show ?thesis
    by (cases k) auto
qed

lemma first_old_Some:
  "first_old steps tg = Some v \<Longrightarrow> \<exists>step \<in> set steps. \<exists>a \<in> set step. target a = tg"
proof (induction steps)
  case Nil
  then show ?case by simp
next
  case (Cons s ss)
  show ?case
  proof (cases "last_old s tg")
    case None
    with Cons show ?thesis by simp
  next
    case (Some u)
    from last_old_Some[OF this] show ?thesis by auto
  qed
qed

lemma round_trip_reads:
  assumes rs: "reset_state rt"
    and same: "\<And>ob k. read_field ob k t1 = read_field ob k rt"
    and olds: "\<And>tg. old_ok (first_old steps tg) tg"
    and vals: "\<And>step a. step \<in> set steps \<Longrightarrow> a \<in> set step \<Longrightarrow> key a = KValue \<Longrightarrow>
                 \<exists>r. object a = ONode r \<and> interior_at r rt"
  shows "rewound ob k (read_field ob k t1) (read_field ob k (playBackward steps (playForward steps t1)))"
proof (cases "first_old steps (ob, k)")
  case None
  then show ?thesis by (simp add: read_round_trip rewound_def)
next
  case (Some v)
  with olds[of "(ob, k)"] have v: "v = exp_old k" by (simp add: old_ok_def)
  show ?thesis
  proof (cases "read_field ob k t1")
    case None
    with Some show ?thesis by (simp add: read_round_trip rewound_def)
  next
    case (Some w)
    note w = this
    with same have rw: "read_field ob k rt = Some w" by simp
    note rd = reset_state_read[OF rs rw]
    from w \<open>first_old steps (ob, k) = Some v\<close>
    have after: "read_field ob k (playBackward steps (playForward steps t1)) = Some (exp_old k)"
      by (simp add: read_round_trip v)
    show ?thesis
    proof (cases k)
      case KValue
      from first_old_Some[OF \<open>first_old steps (ob, k) = Some v\<close>]
      obtain step a where "step \<in> set steps" "a \<in> set step" "target a = (ob, k)" by blast
      with vals[of step a] KValue obtain r where "ob = ONode r" "interior_at r rt"
        by (auto simp: target_def)
      with rd KValue have "w = JNull" by auto
      with \<open>ob = ONode r\<close> KValue w after show ?thesis by (simp add: rewound_def)
    next
      case KAlpha
      with rd w after show ?thesis by (auto simp: rewound_def)
    next
      case KBeta
      with rd w after show ?thesis by (auto simp: rewound_def)
    next
      case KEntered
      with rd w after show ?thesis by (auto simp: rewound_def)
    next
      case KPruned
      with rd w after show ?thesis by (cases ob) (auto simp: rewound_def)
    qed
  qed
qed


text \<open>
  How far the round trip does restore the state, on a freshly generated tree that is
  played for the first time: every field reads as before, except that on nodes a
  \<open>value\<close>, \<open>alpha\<close> or \<open>beta\<close> that was \<open>null\<close> may read \<open>undefined\<close>, and a \<open>pruned\<close>
  that was unset may read \<open>false\<close>.
\<close>

lemma round_trip_of_generated:
  assumes ok: "gen_ok maxDepth bFac True kind 1 t" and kind: "kind \<noteq> leafNode"
  shows "\<exists>before q3 after.
           playbackRoundTrip ((createTree kind maxDepth bFac)\<lparr>rootNode := Some t\<rparr>) = Inr (before, q3, after) \<and>
           lastAction q3 = - 1 \<and>
           (\<forall>ob k. rewound ob k (visibleField before ob k) (visibleField after ob k))"
proof -
  let ?tree = "(createTree kind maxDepth bFac)\<lparr>rootNode := Some t\<rparr>"
  from abActions_returns(1)[OF gen_ok_complete[OF ok], of "[]" "JNum NegInf" "JNum PosInf" "kind = maxNode"]
  obtain res n1 where
    a: "abActions bFac [] t (JNum NegInf) (JNum PosInf) (kind = maxNode) = Inr (res, n1)"
    by blast
  let ?steps = "enterActions res # childActionsList res @ [exitActions res]"
  define r1 where "r1 = resetSubTree n1"
  define t1 where "t1 = ?tree\<lparr>rootNode := Some r1, mutable := False\<rparr>"
  obtain q1 where
    tg: "toggleABVisual \<lparr>treeRef = ?tree, actionRef = None\<rparr> = Inr \<lparr>treeRef = t1, actionRef = Some q1\<rparr>"
    and q1: "inAction q1" "lastAction q1 = - 1" "actionListQueue q1 = ?steps"
    using a
    by (simp add: toggleABVisual_def ensureAction_def alphaBeta_def createTree_def resetTree_def
          newActionListQueue_def pushActionList_def extendActionList_def Let_def r1_def t1_def)
  define r2 where "r2 = playForward ?steps r1"
  define q2 where "q2 = q1\<lparr>lastAction := int (length ?steps) - 1\<rparr>"
  have f: "goToEnd q1 r1 = Inr (q2, r2)"
    using forwardLoop_run[of q1 r1] q1 by (simp add: goToEnd_def q2_def r2_def)
  define r3 where "r3 = playBackward ?steps r2"
  define q3 where "q3 = q2\<lparr>lastAction := - 1\<rparr>"
  have b: "goToBeginning q2 r2 = Inr (q3, r3)"
    using backwardLoop_run[of q2 r2] q1 by (simp add: goToBeginning_def q2_def q3_def r3_def)
  have rt: "playbackRoundTrip ?tree = Inr (t1, q3, t1\<lparr>rootNode := Some r3\<rparr>)"
    unfolding playbackRoundTrip_def tg
    by (simp add: onRoot_def f b t1_def)
  have c: "lastAction q3 = - 1" by (simp add: q3_def)
  let ?rt = "resetSubTree t"
  from gen_ok_reset_state[OF ok kind] have rs: "reset_state ?rt" .
  have same: "read_field ob k r1 = read_field ob k ?rt" for ob k
  proof -
    have "read_field ob k r1 = read_field ob k (withoutShadow r1)"
      by (simp add: read_field_withoutShadow)
    also have "withoutShadow r1 = resetSubTree (withoutShadow t)"
      by (simp add: r1_def reset_withoutShadow(1) abActions_frame(1)[OF a])
    also have "withoutShadow t = t" by (rule gen_ok_withoutShadow[OF ok])
    finally show ?thesis .
  qed
  from compiled_olds(1)[OF a gen_ok_all_fresh[OF ok]]
  have olds: "old_ok (first_old ?steps tg) tg" for tg by blast
  have vals: "\<exists>r. object x = ONode r \<and> interior_at r ?rt"
    if "step \<in> set ?steps" "x \<in> set step" "key x = KValue" for step x
  proof -
    from that(1,2) have "x \<in> resActs res" by (auto simp: resActs_def)
    with value_targets(1)[OF a] that(3) obtain r where "object x = ONode ([] @ r)" "interior_at r t"
      by blast
    then show ?thesis by (auto simp: interior_at_reset)
  qed
  have "rewound ob k (visibleField t1 ob k) (visibleField (t1\<lparr>rootNode := Some r3\<rparr>) ob k)" for ob k
    using round_trip_reads[of ?rt r1 ?steps ob k, OF rs same olds vals]
    by (simp add: visibleField_def t1_def r3_def r2_def)
  with rt c show ?thesis by blast
qed

text \<open>
  C3: the code misses what the claim says. On the worked scenario (depth 3, branching
  factor 2, leaves 3, 5, 2, 9), entering playback resets the tree and leaves \<open>null\<close> in
  the root's \<open>value\<close>; stepping forward to the end and backward to the beginning leaves
  \<open>undefined\<close> there. The log recorded as old value what the shadow field \<open>__value\<close>
  held when the search was compiled, not what \<open>resetTree\<close> writes before every playback.
\<close>

theorem C3_round_trip_loses_null:
  "map_sum id (\<lambda>(before, q, after). (visibleField before (ONode []) KValue, visibleField after (ONode []) KValue))
     (playbackRoundTrip scenario_tree) = Inr (Some JNull, Some JUndefined)"
  by (simp add: playbackRoundTrip_def onRoot_def visibleField_def toggleABVisual_def ensureAction_def
        resetTree_def scenario_tree_def scenario_rnd_def compile_simps goToEnd_def goToBeginning_def
        forwardLoop.simps backwardLoop.simps stepForward_def stepBackward_def step_at_def
        apply_action_def reverse_action_def)

section \<open>Every step can be reversed in any order\<close>

lemma below_simps [simp]:
  "below p k (p @ [j]) = (j < k)" "\<not> below p k p"
  by (simp_all add: below_def)

lemma below_mono: "below p k q \<Longrightarrow> below p (Suc k) q"
  by (simp add: below_def)

lemma loc_ok_mono: "loc_ok p k lf a \<Longrightarrow> loc_ok p (k + 1) lf a"
  by (auto simp: loc_ok_def below_mono split: objref.splits if_splits)

lemma distinct_consistent: "distinct (map target xs) \<Longrightarrow> consistent xs"
  unfolding consistent_def by (auto simp: distinct_map dest: inj_onD)

lemma consistent_append:
  assumes "consistent xs" and "consistent ys"
    and "\<And>a b. a \<in> set xs \<Longrightarrow> b \<in> set ys \<Longrightarrow> target a = target b \<Longrightarrow>
           oldVal a = oldVal b \<and> newVal a = newVal b"
  shows "consistent (xs @ ys)"
  unfolding consistent_def
proof (intro ballI impI)
  fix a b
  assume a: "a \<in> set (xs @ ys)" and b: "b \<in> set (xs @ ys)" and t: "target a = target b"
  from a b consider "a \<in> set xs" "b \<in> set xs" | "a \<in> set ys" "b \<in> set ys"
    | "a \<in> set xs" "b \<in> set ys" | "b \<in> set xs" "a \<in> set ys" by auto
  then show "oldVal a = oldVal b \<and> newVal a = newVal b"
  proof cases
    case 1 with assms(1) t show ?thesis unfolding consistent_def by blast
  next
    case 2 with assms(2) t show ?thesis unfolding consistent_def by blast
  next
    case 3 from assms(3)[OF 3 t] show ?thesis .
  next
    case 4 from assms(3)[OF 4 t[symmetric]] show ?thesis by simp
  qed
qed


lemma target_eq_key: "target a = target b \<Longrightarrow> key a = key b \<and> object a = object b"
  by (simp add: target_def)

lemma loc_ok_below:
  "key a \<noteq> KPruned \<Longrightarrow> object a = OEdge q \<or> object a = ONode q \<Longrightarrow> below p k q \<Longrightarrow>
     loc_ok p k lf a"
  by (auto simp: loc_ok_def)

lemma loc_ok_own:
  "key a \<noteq> KPruned \<Longrightarrow> key a \<noteq> KEntered \<Longrightarrow> object a = ONode p \<Longrightarrow> \<not> lf \<Longrightarrow>
     loc_ok p k lf a"
  by (simp add: loc_ok_def)

lemma loc_ok_cases:
  "loc_ok p k lf b \<Longrightarrow> key b \<noteq> KPruned \<Longrightarrow>
     (\<exists>q. (object b = OEdge q \<or> object b = ONode q) \<and> below p k q) \<or>
     (object b = ONode p \<and> key b \<noteq> KEntered \<and> \<not> lf)"
  by (cases "object b") (simp_all add: loc_ok_def)

lemma pruneStep_linv:
  assumes i: "linv p k lf st"
    and acts: "\<forall>a \<in> set acts. key a = KPruned \<and> oldVal a = JBool False \<and> newVal a = JBool True"
  shows "linv p (k + 1) lf (pruneStep p acts st)"
proof -
  let ?P = "lsLastChildExitActions st"
  let ?P' = "?P @ acts @ [mkAction (ONode p) KPruned (JBool False) (JBool True)]"
  from i have cp: "consistent ?P" and lp: "\<forall>a \<in> set ?P. loc_ok p k lf a"
    and sl: "\<forall>step \<in> set (lsChildActionsList st). consistent step"
    by (simp_all add: linv_def)
  have mem: "a \<in> set ?P \<or> a \<in> set acts \<or> a = mkAction (ONode p) KPruned (JBool False) (JBool True)"
    if "a \<in> set ?P'" for a
    using that by auto
  have pr: "oldVal a = JBool False \<and> newVal a = JBool True" if a: "a \<in> set ?P'" and k: "key a = KPruned" for a
    using mem[OF a]
  proof (elim disjE)
    assume "a \<in> set ?P"
    with lp have "loc_ok p k lf a" by simp
    with k show ?thesis by (simp add: loc_ok_def)
  next
    assume "a \<in> set acts"
    with acts show ?thesis by simp
  next
    assume "a = mkAction (ONode p) KPruned (JBool False) (JBool True)"
    then show ?thesis by (simp add: mkAction_def)
  qed
  have inP: "a \<in> set ?P" if a: "a \<in> set ?P'" and k: "key a \<noteq> KPruned" for a
    using mem[OF a]
  proof (elim disjE)
    assume "a \<in> set ?P"
    then show ?thesis .
  next
    assume "a \<in> set acts"
    with acts k show ?thesis by simp
  next
    assume "a = mkAction (ONode p) KPruned (JBool False) (JBool True)"
    with k show ?thesis by (simp add: mkAction_def)
  qed
  have cP': "consistent ?P'"
    unfolding consistent_def
  proof (intro ballI impI)
    fix a b
    assume a: "a \<in> set ?P'" and b: "b \<in> set ?P'" and t: "target a = target b"
    from target_eq_key[OF t] have kk: "key a = key b" by simp
    show "oldVal a = oldVal b \<and> newVal a = newVal b"
    proof (cases "key a = KPruned")
      case True
      with kk have kb: "key b = KPruned" by simp
      from pr[OF a True] pr[OF b kb] show ?thesis by simp
    next
      case False
      with kk have kb: "key b \<noteq> KPruned" by simp
      from inP[OF a False] inP[OF b kb] have "a \<in> set ?P" "b \<in> set ?P" .
      with cp t show ?thesis unfolding consistent_def by blast
    qed
  qed
  have lP': "\<forall>a \<in> set ?P'. loc_ok p (k + 1) lf a"
  proof
    fix a assume a: "a \<in> set ?P'"
    show "loc_ok p (k + 1) lf a"
    proof (cases "key a = KPruned")
      case True
      from pr[OF a True] True show ?thesis by (simp add: loc_ok_def)
    next
      case False
      from inP[OF a False] lp have "loc_ok p k lf a" by simp
      then show ?thesis by (rule loc_ok_mono)
    qed
  qed
  have L: "lsChildActionsList (pruneStep p acts st) = lsChildActionsList st"
    and P: "lsLastChildExitActions (pruneStep p acts st) = ?P'"
    by (simp_all add: pruneStep_def)
  from sl cP' lP' show ?thesis
    unfolding linv_def L P by blast
qed

lemma searchStep_linv:
  assumes i: "linv p k lf st"
    and e: "\<forall>a \<in> set (enterActions res). key a \<noteq> KPruned \<and>
              (object a = OEdge (p @ [k]) \<or> object a = ONode (p @ [k]))"
    and de: "distinct (map target (enterActions res))"
    and x: "\<forall>a \<in> set (exitActions res). key a \<noteq> KPruned \<and>
              (object a = OEdge (p @ [k]) \<or> object a = ONode (p @ [k]))"
    and dx: "distinct (map target (exitActions res))"
    and c: "\<forall>step \<in> set (childActionsList res). consistent step"
    and l: "(childActionsList res = []) = lf"
  shows "linv p (k + 1) lf (searchStep m p res st)"
proof -
  let ?P = "lsLastChildExitActions st"
  from i have cp: "consistent ?P" and lp: "\<forall>a \<in> set ?P. loc_ok p k lf a"
    and sl: "\<forall>step \<in> set (lsChildActionsList st). consistent step"
    by (simp_all add: linv_def)
  from searchStep_lists[of m p res st] obtain sv1 sv2 where
    L: "lsChildActionsList (searchStep m p res st) =
          lsChildActionsList st @ [(enterActions res @ sv1) @ ?P] @ childActionsList res"
    and X: "lsLastChildExitActions (searchStep m p res st) = exitActions res @ sv2"
    and s2: "childActionsList res = [] \<longrightarrow> sv2 = []"
    and s1: "childActionsList res \<noteq> [] \<longrightarrow> sv1 = []"
    and ds: "distinct (map target (sv1 @ sv2))"
    and o: "\<forall>a \<in> set (sv1 @ sv2). object a = ONode p \<and> key a \<in> {KValue, KAlpha, KBeta} \<and>
        (key a = KValue \<longrightarrow> oldVal a = shadowValue (lsNode st))"
    by blast
  have ne: "p @ [k] \<noteq> p" by simp
  have osv: "object a = ONode p \<and> key a \<noteq> KPruned \<and> key a \<noteq> KEntered"
    if "a \<in> set sv1 \<or> a \<in> set sv2" for a
  proof -
    from that have "a \<in> set (sv1 @ sv2)" by simp
    with o have "object a = ONode p" and "key a \<in> {KValue, KAlpha, KBeta}" by blast+
    then show ?thesis by auto
  qed
  from ds have ds1: "distinct (map target sv1)" and ds2: "distinct (map target sv2)" by simp_all
  have t1: "target a \<noteq> target b" if "a \<in> set (enterActions res)" "b \<in> set sv1" for a b
  proof -
    from e that(1) have "object a = OEdge (p @ [k]) \<or> object a = ONode (p @ [k])" by simp
    moreover from osv[of b] that(2) have "object b = ONode p" by simp
    ultimately show ?thesis using ne by (auto simp: target_def)
  qed
  have t2: "target a \<noteq> target b" if "a \<in> set (exitActions res)" "b \<in> set sv2" for a b
  proof -
    from x that(1) have "object a = OEdge (p @ [k]) \<or> object a = ONode (p @ [k])" by simp
    moreover from osv[of b] that(2) have "object b = ONode p" by simp
    ultimately show ?thesis using ne by (auto simp: target_def)
  qed
  have i1: "target ` set (enterActions res) \<inter> target ` set sv1 = {}"
    using t1 by blast
  have i2: "target ` set (exitActions res) \<inter> target ` set sv2 = {}"
    using t2 by blast
  have d1: "distinct (map target (enterActions res @ sv1))"
    using de ds1 i1 by simp
  have d2: "distinct (map target (exitActions res @ sv2))"
    using dx ds2 i2 by simp
  have cross: "oldVal a = oldVal b \<and> newVal a = newVal b"
    if a: "a \<in> set (enterActions res @ sv1)" and b: "b \<in> set ?P" and t: "target a = target b" for a b
  proof -
    from target_eq_key[OF t] have kk: "key b = key a" and ob: "object b = object a" by simp_all
    have nk: "key a \<noteq> KPruned"
    proof (cases "a \<in> set (enterActions res)")
      case True
      with e show ?thesis by simp
    next
      case False
      with a osv[of a] show ?thesis by simp
    qed
    from lp b have lb: "loc_ok p k lf b" by simp
    from nk kk have nkb: "key b \<noteq> KPruned" by simp
    note lc = loc_ok_cases[OF lb nkb]
    from a have "a \<in> set (enterActions res) \<or> a \<in> set sv1" by simp
    then have False
    proof
      assume "a \<in> set (enterActions res)"
      with e have oa: "object a = OEdge (p @ [k]) \<or> object a = ONode (p @ [k])" by simp
      from lc show False
      proof
        assume "\<exists>q. (object b = OEdge q \<or> object b = ONode q) \<and> below p k q"
        then obtain q where q: "object b = OEdge q \<or> object b = ONode q" and bl: "below p k q"
          by blast
        from q oa ob have "q = p @ [k]" by auto
        with bl show False by simp
      next
        assume "object b = ONode p \<and> key b \<noteq> KEntered \<and> \<not> lf"
        with oa ob show False by auto
      qed
    next
      assume a1: "a \<in> set sv1"
      from a1 s1 have "childActionsList res = []" by auto
      with l have lf by simp
      from osv[of a] a1 have oa: "object a = ONode p" by simp
      from lc show False
      proof
        assume "\<exists>q. (object b = OEdge q \<or> object b = ONode q) \<and> below p k q"
        then obtain q where q: "object b = OEdge q \<or> object b = ONode q" and bl: "below p k q"
          by blast
        from q oa ob have "q = p" by auto
        with bl show False by simp
      next
        assume "object b = ONode p \<and> key b \<noteq> KEntered \<and> \<not> lf"
        with \<open>lf\<close> show False by simp
      qed
    qed
    then show ?thesis ..
  qed
  have c1: "consistent ((enterActions res @ sv1) @ ?P)"
    by (rule consistent_append[OF distinct_consistent[OF d1] cp cross])
  have c2: "consistent (exitActions res @ sv2)"
    by (rule distinct_consistent[OF d2])
  have l2: "\<forall>a \<in> set (exitActions res @ sv2). loc_ok p (k + 1) lf a"
  proof
    fix a assume "a \<in> set (exitActions res @ sv2)"
    then have "a \<in> set (exitActions res) \<or> a \<in> set sv2" by simp
    then show "loc_ok p (k + 1) lf a"
    proof
      assume "a \<in> set (exitActions res)"
      with x have "key a \<noteq> KPruned" "object a = OEdge (p @ [k]) \<or> object a = ONode (p @ [k])"
        by simp_all
      then show ?thesis by (rule loc_ok_below) simp
    next
      assume a2: "a \<in> set sv2"
      with s2 have "childActionsList res \<noteq> []" by auto
      with l have "\<not> lf" by simp
      with a2 osv[of a] show ?thesis by (simp add: loc_ok_own)
    qed
  qed
  have bl: "\<forall>step \<in> set (lsChildActionsList st @ [(enterActions res @ sv1) @ ?P] @ childActionsList res).
              consistent step"
    using sl c c1 by (simp add: ball_Un)
  from bl c2 l2 show ?thesis
    unfolding linv_def L X by simp
qed

lemma result_lists:
  assumes "abActions bFac q (TreeNode nf cs) a b isMaxNode = Inr (res, n1)"
  shows "\<exists>eo. eo = (case edgeToParent nf of None \<Rightarrow> ONone | Some e \<Rightarrow> OEdge q) \<and>
           (enterActions res =
              [mkAction eo KEntered (JBool False) (JBool True),
               mkAction (ONode q) KEntered (JBool False) (JBool True)] \<and>
            exitActions res = [mkAction eo KEntered (JBool True) (JBool False)] \<and>
            childActionsList res = [] \<and> nodeType nf = leafNode \<or>
            enterActions res =
              [mkAction eo KEntered (JBool False) (JBool True),
               mkAction (ONode q) KEntered (JBool False) (JBool True),
               mkAction (ONode q) KAlpha (alpha nf) a, mkAction (ONode q) KBeta (beta nf) b] \<and>
            exitActions res =
              [mkAction eo KEntered (JBool True) (JBool False),
               mkAction (ONode q) KEntered (JBool True) (JBool False)] \<and>
            childActionsList res \<noteq> [] \<and> nodeType nf \<noteq> leafNode)"
  using abActions_result[OF assms]
  by (elim disjE conjE exE) simp_all

lemma child_shape:
  assumes "abActions bFac q (TreeNode nf cs) a b isMaxNode = Inr (res, n1)"
    and "edgeToParent nf \<noteq> None"
  shows "(\<forall>x \<in> set (enterActions res). key x \<noteq> KPruned \<and> (object x = OEdge q \<or> object x = ONode q)) \<and>
         distinct (map target (enterActions res)) \<and>
         (\<forall>x \<in> set (exitActions res). key x \<noteq> KPruned \<and> (object x = OEdge q \<or> object x = ONode q)) \<and>
         distinct (map target (exitActions res)) \<and>
         (childActionsList res = []) = (nodeType nf = leafNode)"
proof -
  from assms(2) obtain e where e: "edgeToParent nf = Some e" by auto
  from result_lists[OF assms(1)] show ?thesis
    unfolding e by (elim disjE conjE exE) (simp_all add: mkAction_def target_def)
qed

lemma own_steps_consistent:
  assumes "abActions bFac q (TreeNode nf cs) a b isMaxNode = Inr (res, n1)"
  shows "consistent (enterActions res) \<and> consistent (exitActions res)"
proof -
  have "distinct (map target (enterActions res)) \<and> distinct (map target (exitActions res))"
    using result_lists[OF assms]
    by (cases "edgeToParent nf") (elim disjE conjE exE, simp_all add: mkAction_def target_def)+
  then show ?thesis by (simp add: distinct_consistent)
qed

lemma compiled_consistent:
  shows "abActions bFac p n a b isMaxNode = Inr (res, n1) \<Longrightarrow> uniform h n \<Longrightarrow>
           \<forall>step \<in> set (childActionsList res). consistent step"
    and "abLoop bFac p isMaxNode k rem st = Inr (st1, rem1) \<Longrightarrow>
           (\<forall>c \<in> set rem. edgeToParent (nfields c) \<noteq> None \<and> uniform h c) \<Longrightarrow>
           linv p k (h = 0) st \<Longrightarrow> \<exists>k1. linv p k1 (h = 0) st1"
proof (induction bFac p n a b isMaxNode and bFac p isMaxNode k rem st
       arbitrary: res n1 h and st1 rem1 h rule: abActions_abLoop.induct)
  case (1 bFac p nf cs a b isMaxNode)
  from abActions_result[OF "1.prems"(1)] show ?case
  proof (elim disjE conjE exE)
    assume "res = \<lparr>returnVal = nodeValue nf,
               enterActions =
                 [mkAction (case edgeToParent nf of None \<Rightarrow> ONone | Some e \<Rightarrow> OEdge p) KEntered (JBool False) (JBool True),
                  mkAction (ONode p) KEntered (JBool False) (JBool True)],
               childActionsList = [],
               exitActions = [mkAction (case edgeToParent nf of None \<Rightarrow> ONone | Some e \<Rightarrow> OEdge p) KEntered (JBool True) (JBool False)]\<rparr>"
    then show ?thesis by simp
  next
    fix st :: LoopState and cs1
    let ?st0 = "\<lparr>lsA = a, lsB = b, lsCurVal = JNum (if isMaxNode then NegInf else PosInf),
             lsPruneRest = False, lsLastChildExitActions = [], lsChildActionsList = [],
             lsNode = nf\<lparr>shadowAlpha := a, shadowBeta := b\<rparr>\<rparr>"
    let ?eo = "case edgeToParent nf of None \<Rightarrow> ONone | Some e \<Rightarrow> OEdge p"
    let ?E = "[mkAction ?eo KEntered (JBool False) (JBool True),
               mkAction (ONode p) KEntered (JBool False) (JBool True),
               mkAction (ONode p) KAlpha (alpha nf) a, mkAction (ONode p) KBeta (beta nf) b]"
    let ?X = "[mkAction ?eo KEntered (JBool True) (JBool False),
               mkAction (ONode p) KEntered (JBool True) (JBool False)]"
    assume nl: "nodeType nf \<noteq> leafNode"
      and l: "abLoop bFac p isMaxNode 0 cs ?st0 = Inr (st, cs1)"
      and r0: "res = \<lparr>returnVal = lsCurVal st, enterActions = ?E,
                      childActionsList = lsChildActionsList st @ [lsLastChildExitActions st],
                      exitActions = ?X\<rparr>"
    from r0 have r: "childActionsList res = lsChildActionsList st @ [lsLastChildExitActions st]"
      by simp
    from "1.prems"(2) nl obtain h1 where h: "h = Suc h1"
      and ch: "\<forall>c \<in> set cs. edgeToParent (nfields c) \<noteq> None \<and> uniform h1 c"
      by (cases h) auto
    have i0: "linv p 0 (h1 = 0) ?st0" by (simp add: linv_def consistent_def)
    from "1.IH"[OF refl refl nl l ch i0] obtain k1 where "linv p k1 (h1 = 0) st" ..
    with r show ?thesis by (auto simp: linv_def)
  qed
next
  case (2 bFac p isMaxNode k rem st)
  from abLoop_unfold[OF "2.prems"(1)] show ?case
  proof (elim disjE conjE exE)
    assume "st1 = st"
    with "2.prems"(3) show ?thesis by blast
  next
    assume kb: "k < bFac" and pr: "lsPruneRest st" and e: "rem = []"
      and l: "abLoop bFac p isMaxNode (k + 1) [] (pruneStep p [] st) = Inr (st1, rem1)"
    have "linv p (k + 1) (h = 0) (pruneStep p [] st)"
      by (rule pruneStep_linv[OF "2.prems"(3)]) simp
    from "2.IH"(1)[OF kb pr e l _ this] show ?thesis by simp
  next
    fix c rest acts c1 rest1
    assume kb: "k < bFac" and pr: "lsPruneRest st" and e: "rem = c # rest"
      and pi: "pruneInner bFac (p @ [k]) c = (acts, c1)"
      and l: "abLoop bFac p isMaxNode (k + 1) rest (pruneStep p acts st) = Inr (st1, rest1)"
    from pruneInner_actions(1)[of bFac "p @ [k]" c] pi
    have ka: "\<forall>a \<in> set acts. key a = KPruned \<and> oldVal a = JBool False \<and> newVal a = JBool True" by simp
    from "2.prems"(2) e have rs: "\<forall>c \<in> set rest. edgeToParent (nfields c) \<noteq> None \<and> uniform h c" by simp
    note i' = pruneStep_linv[OF "2.prems"(3) ka]
    from "2.IH"(2)[OF kb pr e pi[symmetric] l rs i'] show ?thesis .
  next
    fix c rest res c1 rest1
    assume kb: "k < bFac" and npr: "\<not> lsPruneRest st" and e: "rem = c # rest"
      and a: "abActions bFac (p @ [k]) c (lsA st) (lsB st) (\<not> isMaxNode) = Inr (res, c1)"
      and l: "abLoop bFac p isMaxNode (k + 1) rest (searchStep isMaxNode p res st) = Inr (st1, rest1)"
    from "2.prems"(2) e have so: "uniform h c" and ed0: "edgeToParent (nfields c) \<noteq> None"
      and rs: "\<forall>c \<in> set rest. edgeToParent (nfields c) \<noteq> None \<and> uniform h c" by simp_all
    note ch = "2.IH"(3)[OF kb npr e a so]
    obtain cnf ccs where c: "c = TreeNode cnf ccs" by (cases c)
    from ed0 c have ed: "edgeToParent cnf \<noteq> None" by simp
    from so c have lf: "(nodeType cnf = leafNode) = (h = 0)"
      by (cases h) auto
    from child_shape[OF a[unfolded c] ed] lf have
      sh: "\<forall>x \<in> set (enterActions res). key x \<noteq> KPruned \<and> (object x = OEdge (p @ [k]) \<or> object x = ONode (p @ [k]))"
          "distinct (map target (enterActions res))"
          "\<forall>x \<in> set (exitActions res). key x \<noteq> KPruned \<and> (object x = OEdge (p @ [k]) \<or> object x = ONode (p @ [k]))"
          "distinct (map target (exitActions res))"
          "(childActionsList res = []) = (h = 0)"
      by simp_all
    note i' = searchStep_linv[OF "2.prems"(3) sh(1) sh(2) sh(3) sh(4) ch sh(5), of isMaxNode]
    from "2.IH"(4)[OF kb npr e a refl l rs i'] show ?thesis .
  qed
qed

lemma gen_ok_uniform:
  "gen_ok maxDepth bFac isRoot kind d n \<Longrightarrow> d \<le> maxDepth \<Longrightarrow> kind \<noteq> leafNode \<Longrightarrow>
     uniform (maxDepth - d) n"
proof (induction maxDepth bFac isRoot kind d n rule: gen_ok.induct)
  case (1 maxDepth bFac isRoot kind d nf cs)
  show ?case
  proof (cases "d = maxDepth")
    case True
    with "1.prems" show ?thesis by simp
  next
    case False
    with "1.prems" have lt: "d < maxDepth" by simp
    then have h: "maxDepth - d = Suc (maxDepth - (d + 1))" by simp
    have "edgeToParent (nfields c) \<noteq> None \<and> uniform (maxDepth - (d + 1)) c" if "c \<in> set cs" for c
    proof -
      from "1.prems"(1) False that
      have g: "gen_ok maxDepth bFac False (oppositeNodeType kind) (d + 1) c" by simp
      from "1.IH"[OF False that g] lt opposite_not_leaf[OF "1.prems"(3)]
      have "uniform (maxDepth - (d + 1)) c" by simp
      moreover from g have "edgeToParent (nfields c) \<noteq> None" by (cases c) simp
      ultimately show ?thesis by simp
    qed
    with "1.prems"(1,3) False show ?thesis
      by (simp add: h)
  qed
qed

lemma gen_ok_uniform_ex:
  assumes "gen_ok maxDepth bFac isRoot kind d n" and "d \<le> maxDepth"
  shows "\<exists>h. uniform h n"
proof (cases "kind = leafNode")
  case True
  obtain nf cs where n: "n = TreeNode nf cs" by (cases n)
  from assms(1) True n have "nodeType nf = leafNode" by (simp split: if_splits)
  with n have "uniform 0 n" by simp
  then show ?thesis ..
next
  case False
  from gen_ok_uniform[OF assms False] show ?thesis ..
qed


lemma upd_at_comp: "upd_at p f (upd_at p g t) = upd_at p (f \<circ> g) t"
proof (induction p arbitrary: t)
  case Nil
  then show ?case by (cases t) simp
next
  case (Cons k p)
  then show ?case by (cases t) simp
qed

lemma upd_at_swap: "p \<noteq> q \<Longrightarrow> upd_at p f (upd_at q g t) = upd_at q g (upd_at p f t)"
proof (induction p arbitrary: q t)
  case Nil
  then obtain j q' where q: "q = j # q'" by (cases q) auto
  then show ?case by (cases t) simp
next
  case (Cons k p)
  obtain nf cs where t: "t = TreeNode nf cs" by (cases t)
  show ?case
  proof (cases q)
    case Nil
    with t show ?thesis by simp
  next
    case (Cons j q')
    show ?thesis
    proof (cases "k = j")
      case True
      with Cons.prems Cons have "p \<noteq> q'" by simp
      from Cons.IH[OF this] True Cons t show ?thesis by simp
    next
      case False
      with Cons t show ?thesis by (simp add: list_update_swap)
    qed
  qed
qed

lemma set_node_key_swap:
  "k1 \<noteq> k2 \<or> v1 = v2 \<Longrightarrow>
     set_node_key k1 v1 \<circ> set_node_key k2 v2 = set_node_key k2 v2 \<circ> set_node_key k1 v1"
  by (cases k1; cases k2) (auto simp: fun_eq_iff)

lemma set_edge_key_swap:
  "k1 \<noteq> k2 \<or> v1 = v2 \<Longrightarrow>
     set_edge_key k1 v1 (set_edge_key k2 v2 e) = set_edge_key k2 v2 (set_edge_key k1 v1 e)"
  by (cases k1; cases k2) auto

lemma set_edge_of_swap:
  assumes "k1 \<noteq> k2 \<or> v1 = v2"
  shows "set_edge_of k1 v1 \<circ> set_edge_of k2 v2 = set_edge_of k2 v2 \<circ> set_edge_of k1 v1"
proof
  fix nf
  show "(set_edge_of k1 v1 \<circ> set_edge_of k2 v2) nf = (set_edge_of k2 v2 \<circ> set_edge_of k1 v1) nf"
    using set_edge_key_swap[OF assms]
    by (cases "edgeToParent nf") (simp_all add: set_edge_of_def)
qed

lemma set_node_edge_swap:
  "set_node_key k1 v1 \<circ> set_edge_of k2 v2 = set_edge_of k2 v2 \<circ> set_node_key k1 v1"
  by (cases k1) (simp_all add: fun_eq_iff set_edge_of_def)

lemma write_field_swap:
  assumes "(ob1, k1) \<noteq> (ob2, k2) \<or> v1 = v2"
  shows "write_field ob1 k1 v1 (write_field ob2 k2 v2 t) =
         write_field ob2 k2 v2 (write_field ob1 k1 v1 t)"
proof (cases ob1)
  case ONone
  then show ?thesis by simp
next
  case n1: (ONode p1)
  show ?thesis
  proof (cases ob2)
    case ONone
    then show ?thesis by simp
  next
    case (ONode p2)
    show ?thesis
    proof (cases "p1 = p2")
      case True
      with assms n1 ONode have "k1 \<noteq> k2 \<or> v1 = v2" by auto
      from set_node_key_swap[OF this] True n1 ONode show ?thesis
        by (simp add: upd_at_comp)
    next
      case False
      with n1 ONode show ?thesis by (simp add: upd_at_swap)
    qed
  next
    case (OEdge p2)
    show ?thesis
    proof (cases "p1 = p2")
      case True
      with n1 OEdge show ?thesis
        by (simp add: upd_at_comp set_node_edge_swap)
    next
      case False
      with n1 OEdge show ?thesis by (simp add: upd_at_swap)
    qed
  qed
next
  case e1: (OEdge p1)
  show ?thesis
  proof (cases ob2)
    case ONone
    then show ?thesis by simp
  next
    case (ONode p2)
    show ?thesis
    proof (cases "p1 = p2")
      case True
      with e1 ONode show ?thesis
        by (simp add: upd_at_comp set_node_edge_swap)
    next
      case False
      with e1 ONode show ?thesis by (simp add: upd_at_swap)
    qed
  next
    case (OEdge p2)
    show ?thesis
    proof (cases "p1 = p2")
      case True
      with assms e1 OEdge have "k1 \<noteq> k2 \<or> v1 = v2" by auto
      from set_edge_of_swap[OF this] True e1 OEdge show ?thesis
        by (simp add: upd_at_comp)
    next
      case False
      with e1 OEdge show ?thesis by (simp add: upd_at_swap)
    qed
  qed
qed

lemma reverse_swap:
  "target a \<noteq> target b \<or> oldVal a = oldVal b \<Longrightarrow>
     reverse_action a \<circ> reverse_action b = reverse_action b \<circ> reverse_action a"
  by (rule ext) (simp add: reverse_action_def target_def write_field_swap)

lemma consistent_any_order:
  assumes c: "consistent step" and m: "mset xs = mset step"
  shows "fold reverse_action xs = fold reverse_action step"
proof (rule fold_multiset_equiv[OF _ m])
  fix a b
  assume "a \<in> set xs" "b \<in> set xs"
  with mset_eq_setD[OF m] have "a \<in> set step" "b \<in> set step" by simp_all
  with c have "target a \<noteq> target b \<or> oldVal a = oldVal b"
    unfolding consistent_def by blast
  then show "reverse_action a \<circ> reverse_action b = reverse_action b \<circ> reverse_action a"
    by (rule reverse_swap)
qed

text \<open>
  C8, as stated, fails. On the tree of depth 3 and branching factor 3 with the leaves
  3, 5, 4, 2, 9, 0, 7, 8, 6 the second minimizer is cut off after its first leaf, and
  the step that leaves this leaf (index 8 in the log) prunes the two other leaves: it
  writes the \<open>pruned\<close> flag of the node at path \<open>[1]\<close> twice, once for each pruned child.
\<close>

theorem C8_same_target_twice:
  "map_sum id (\<lambda>(q, t). map target (actionListQueue q ! 8)) (alphaBeta scenario3_tree) =
     Inr [(OEdge [1, 0], KEntered), (OEdge [1, 1], KPruned), (ONode [1], KPruned),
          (OEdge [1, 2], KPruned), (ONode [1], KPruned)]"
  by (simp add: scenario3_tree_def scenario3_rnd_def compile_simps target_def)

text \<open>
  C8, amended. In every step of the log compiled on a generated tree (declared depth
  at least 1; any root kind, branching factor and bounds), any two actions that write
  the same field of the same object carry the same old and the same new value; so
  reversing the actions of the step in any order gives the same state as reversing
  them in reverse order, from every state of the tree.
\<close>

theorem C8_steps_agree_on_shared_targets:
  assumes "1 \<le> maxDepth"
  shows "\<exists>t s1 q tree1.
           generateABTreeRootNode rnd treeType0 maxDepth bFac minVal maxVal s = Some (t, s1) \<and>
           alphaBeta ((createTree treeType0 maxDepth bFac)\<lparr>rootNode := Some t\<rparr>) = Inr (q, tree1) \<and>
           (\<forall>step \<in> set (actionListQueue q).
              consistent step \<and>
              (\<forall>xs h. mset xs = mset step \<longrightarrow>
                 fold reverse_action xs h = fold reverse_action (rev step) h))"
proof -
  from generated_gen_ok[OF assms, of rnd treeType0 bFac minVal maxVal s]
  obtain t s1 where g: "generateABTreeRootNode rnd treeType0 maxDepth bFac minVal maxVal s = Some (t, s1)"
    and gok: "gen_ok maxDepth bFac True treeType0 1 t"
    by blast
  let ?m = "treeType0 = maxNode"
  from abActions_returns(1)[OF gen_ok_complete[OF gok], of "[]" "JNum NegInf" "JNum PosInf" ?m]
  obtain res n1 where
    a: "abActions bFac [] t (JNum NegInf) (JNum PosInf) ?m = Inr (res, n1)"
    by blast
  from gen_ok_uniform_ex[OF gok assms] obtain h where u: "uniform h t" ..
  obtain nf cs where t: "t = TreeNode nf cs" by (cases t)
  let ?steps = "enterActions res # childActionsList res @ [exitActions res]"
  from compiled_consistent(1)[OF a u] own_steps_consistent[OF a[unfolded t]]
  have cs: "\<forall>step \<in> set ?steps. consistent step" by simp
  have ord: "fold reverse_action xs h = fold reverse_action (rev step) h"
    if "step \<in> set ?steps" "mset xs = mset step" for step xs h
  proof -
    from cs that(1) have c: "consistent step" by blast
    have "mset (rev step) = mset step" by simp
    from consistent_any_order[OF c that(2)] consistent_any_order[OF c this]
    show ?thesis by simp
  qed
  obtain q where
    ab: "alphaBeta ((createTree treeType0 maxDepth bFac)\<lparr>rootNode := Some t\<rparr>) =
           Inr (q, (createTree treeType0 maxDepth bFac)\<lparr>rootNode := Some n1\<rparr>)"
    and q: "actionListQueue q = ?steps"
    using a
    by (simp add: alphaBeta_def createTree_def newActionListQueue_def pushActionList_def
          extendActionList_def)
  from cs ord have "\<forall>step \<in> set (actionListQueue q).
      consistent step \<and>
      (\<forall>xs h. mset xs = mset step \<longrightarrow> fold reverse_action xs h = fold reverse_action (rev step) h)"
    unfolding q by blast
  with g ab show ?thesis by blast
qed

theorem C8_steps_agree_on_shared_targets_witness:
  "\<exists>t s1 q tree1.
     generateABTreeRootNode scenario3_rnd maxNode 3 3 (Some (Fin (- 20))) (Some (Fin 20))
       \<lparr>globalNodeId = 0, randomCalls = 0\<rparr> = Some (t, s1) \<and>
     alphaBeta ((createTree maxNode 3 3)\<lparr>rootNode := Some t\<rparr>) = Inr (q, tree1) \<and>
     (\<forall>step \<in> set (actionListQueue q).
        consistent step \<and>
        (\<forall>xs h. mset xs = mset step \<longrightarrow>
           fold reverse_action xs h = fold reverse_action (rev step) h))"
  using C8_steps_agree_on_shared_targets[of 3 scenario3_rnd maxNode 3 "Some (Fin (- 20))" "Some (Fin 20)"
          "\<lparr>globalNodeId = 0, randomCalls = 0\<rparr>"]
  by simp

end
